theory Spec2Isabelle
  imports Main "HOL-Library.Word"
begin

unbundle bit_operations_syntax

section \<open>The wait-free buffer pool of \<open>xpedite/common/WaitFreeBufferPool.H\<close>\<close>

text \<open>
  The pool is a class template over the record type \<open>T\<close> and two \<open>unsigned\<close>
  parameters, \<open>bufferSize\<close> and \<open>poolSize\<close>.  The template parameters are passed to
  every operation as 32-bit words; the two indices and the overflow count are
  \<open>uint64_t\<close>, so their arithmetic wraps modulo \<open>2 ^ 64\<close>.  A \<open>T*\<close> into the pool is
  the offset of the element it points to in \<open>_pool->data()\<close>; \<open>nullptr\<close> is \<open>None\<close>.
\<close>

type_synonym u32 = "32 word"
type_synonym u64 = "64 word"

definition isPoolSizeValid :: "u32 \<Rightarrow> bool" where
  "isPoolSizeValid poolSize \<longleftrightarrow> poolSize > 1 \<and> (poolSize AND (poolSize - 1)) = 0"

record 'a WaitFreeBufferPool =
  writeIndex :: u64
  readIndex :: u64
  pool :: "'a list"
  overflowCount :: u64

definition poolSizeMask :: "u32 \<Rightarrow> u64" where
  "poolSizeMask poolSize = ucast (poolSize - 1)"

definition readIndexMax :: "u32 \<Rightarrow> u64" where
  "readIndexMax poolSize = (- 1) - ucast poolSize"

subsection \<open>Construction\<close>

text \<open>
  The constructor can throw before the object exists: the base class
  \<open>util::AlignedObject\<close> checks the alignment (a runtime exception, by the comment in
  the constructor), and \<open>Buffer::operator new\<close> throws \<open>std::bad_alloc\<close> when
  \<open>util::xpediteMalloc\<close> returns null.  Neither helper is part of the header, so the
  outcome of the two checks is a parameter.  The storage is
  \<open>Buffer<T, bufferSize * poolSize>\<close>, value-initialised; the product is an
  \<open>unsigned\<close> product.
\<close>

datatype ctor_error = RuntimeError | BadAlloc

definition initial :: "u32 \<Rightarrow> u32 \<Rightarrow> ('a::zero) WaitFreeBufferPool" where
  "initial bufferSize poolSize =
     \<lparr> writeIndex = 0,
       readIndex = readIndexMax poolSize,
       pool = replicate (unat (bufferSize * poolSize)) 0,
       overflowCount = 0 \<rparr>"

definition WaitFreeBufferPool_ctor ::
  "bool \<Rightarrow> bool \<Rightarrow> u32 \<Rightarrow> u32 \<Rightarrow> ctor_error + ('a::zero) WaitFreeBufferPool" where
  "WaitFreeBufferPool_ctor aligned allocated bufferSize poolSize =
     (if \<not> aligned then Inl RuntimeError
      else if \<not> allocated then Inl BadAlloc
      else Inr (initial bufferSize poolSize))"

subsection \<open>Slot addressing\<close>

definition bufferAt :: "u32 \<Rightarrow> u32 \<Rightarrow> u64 \<Rightarrow> u64" where
  "bufferAt bufferSize poolSize index =
     (index AND poolSizeMask poolSize) * ucast bufferSize"

subsection \<open>Attach and detach\<close>

text \<open>
  \<open>attachReader\<close> reloads \<open>_writeIndex\<close> in every iteration of its loop, and the
  producer may have stored to it in between.  The loop is therefore modelled over
  the values the successive reloads return: \<open>loads i\<close> is what the reload of
  iteration \<open>i\<close> sees, and \<open>windex\<close> is the value of the previous load.  The loop need
  not terminate, so not returning is the value \<open>None\<close>.
\<close>

partial_function (option) attachReader_loop ::
  "u32 \<Rightarrow> (nat \<Rightarrow> u64) \<Rightarrow> nat \<Rightarrow> u64 \<Rightarrow> (u64 \<times> u64) option" where
  "attachReader_loop poolSize loads i windex =
     (let rindex = (if windex \<noteq> 0 then windex - 1 else 0);
          windex' = loads i
      in if windex' > rindex + ucast poolSize
         then attachReader_loop poolSize loads (Suc i) windex'
         else Some (rindex, windex'))"

text \<open>The call with no producer running: every load returns the stored write index.\<close>

definition attachReader ::
  "u32 \<Rightarrow> 'a WaitFreeBufferPool \<Rightarrow> ((u64 \<times> u64) \<times> 'a WaitFreeBufferPool) option" where
  "attachReader poolSize s =
     (case attachReader_loop poolSize (\<lambda>_. writeIndex s) 0 (writeIndex s) of
        None \<Rightarrow> None
      | Some (rindex, windex) \<Rightarrow> Some ((rindex, windex), s\<lparr>readIndex := rindex\<rparr>))"

definition detachReader ::
  "u32 \<Rightarrow> 'a WaitFreeBufferPool \<Rightarrow> (u64 \<times> u64) \<times> 'a WaitFreeBufferPool" where
  "detachReader poolSize s =
     (let rindex = readIndex s;
          windex = writeIndex s
      in ((rindex, windex), s\<lparr>readIndex := readIndexMax poolSize\<rparr>))"

subsection \<open>Producer and consumer operations\<close>

definition nextWritableBuffer ::
  "u32 \<Rightarrow> u32 \<Rightarrow> 'a WaitFreeBufferPool \<Rightarrow> u64 \<times> 'a WaitFreeBufferPool" where
  "nextWritableBuffer bufferSize poolSize s =
     (let windex = writeIndex s;
          rindex = readIndex s
      in if windex < rindex + ucast poolSize
         then (let windex' = windex + 1
               in (bufferAt bufferSize poolSize windex', s\<lparr>writeIndex := windex'\<rparr>))
         else (bufferAt bufferSize poolSize windex,
               s\<lparr>overflowCount := overflowCount s + 1\<rparr>))"

text \<open>
  The \<open>assert\<close> in \<open>nextReadableBuffer\<close> aborts the program unless the header is
  compiled with \<open>NDEBUG\<close>; \<open>ndebug\<close> says which build is modelled.  The second
  error is for the callers below, which read and write the storage through the
  pointers the pool hands out.
\<close>

datatype error = AssertionFailed | OutOfBounds

definition nextReadableBuffer ::
  "bool \<Rightarrow> u32 \<Rightarrow> u32 \<Rightarrow> 'a WaitFreeBufferPool \<Rightarrow> u64 option
     \<Rightarrow> error + (u64 option \<times> 'a WaitFreeBufferPool)" where
  "nextReadableBuffer ndebug bufferSize poolSize s curReadBuf =
     (let rindex = readIndex s;
          advance = (curReadBuf \<noteq> None);
          rindex = (if advance then rindex + 1 else rindex)
      in if advance \<and> \<not> ndebug \<and> curReadBuf \<noteq> Some (bufferAt bufferSize poolSize rindex)
         then Inl AssertionFailed
         else
           (let s' = (if advance then s\<lparr>readIndex := rindex\<rparr> else s);
                windex = writeIndex s'
            in if windex > rindex + 1
               then Inr (Some (bufferAt bufferSize poolSize (rindex + 1)), s')
               else Inr (None, s')))"

definition peekWithDataRace :: "u32 \<Rightarrow> u32 \<Rightarrow> 'a WaitFreeBufferPool \<Rightarrow> u64" where
  "peekWithDataRace bufferSize poolSize s = bufferAt bufferSize poolSize (writeIndex s)"

subsection \<open>Vocabulary for the attach loop\<close>

text \<open>
  The read index \<open>attachReader\<close> proposes from a loaded write index, the write index
  loaded just before the proposal of iteration \<open>k\<close>, and the retry test of iteration
  \<open>k\<close> (the producer has lapped the proposal).
\<close>

definition proposedReadIndex :: "u64 \<Rightarrow> u64" where
  "proposedReadIndex windex = (if windex \<noteq> 0 then windex - 1 else 0)"

definition loadedBefore :: "u64 \<Rightarrow> (nat \<Rightarrow> u64) \<Rightarrow> nat \<Rightarrow> u64" where
  "loadedBefore windex loads k = (case k of 0 \<Rightarrow> windex | Suc j \<Rightarrow> loads j)"

definition lapped :: "u32 \<Rightarrow> u64 \<Rightarrow> (nat \<Rightarrow> u64) \<Rightarrow> nat \<Rightarrow> bool" where
  "lapped poolSize windex loads k \<longleftrightarrow>
     loads k > proposedReadIndex (loadedBefore windex loads k) + ucast poolSize"

subsection \<open>Runs of the producer\<close>

text \<open>The producer called \<open>n\<close> times in a row, with nothing in between.\<close>

primrec nextWritableBuffer_times ::
  "u32 \<Rightarrow> u32 \<Rightarrow> nat \<Rightarrow> 'a WaitFreeBufferPool \<Rightarrow> 'a WaitFreeBufferPool" where
  "nextWritableBuffer_times bufferSize poolSize 0 s = s"
| "nextWritableBuffer_times bufferSize poolSize (Suc n) s =
     snd (nextWritableBuffer bufferSize poolSize (nextWritableBuffer_times bufferSize poolSize n s))"

subsection \<open>Legal sequential call sequences\<close>

text \<open>
  A call sequence is legal when every \<open>nextReadableBuffer\<close> is called with \<open>nullptr\<close>
  or with the buffer the previous \<open>nextReadableBuffer\<close> returned, with no attach or
  detach in between; the other three operations may be called at any time.  A
  session is the pool together with what this depends on, the buffer the last
  \<open>nextReadableBuffer\<close> returned, and with whether a reader is attached.  \<open>step\<close> is
  \<open>None\<close> for a call that is not legal, for an \<open>attachReader\<close> that does not return
  and for a failed assertion.
\<close>

datatype call =
  AttachReader | DetachReader | NextWritableBuffer | NextReadableBuffer "u64 option"

record 'a session =
  thePool :: "'a WaitFreeBufferPool"
  attached :: bool
  lastReadBuf :: "u64 option"

definition fresh :: "u32 \<Rightarrow> u32 \<Rightarrow> ('a::zero) session" where
  "fresh bufferSize poolSize =
     \<lparr> thePool = initial bufferSize poolSize, attached = False, lastReadBuf = None \<rparr>"

fun step :: "bool \<Rightarrow> u32 \<Rightarrow> u32 \<Rightarrow> call \<Rightarrow> 'a session \<Rightarrow> 'a session option" where
  "step ndebug bufferSize poolSize AttachReader h =
     (case attachReader poolSize (thePool h) of
        None \<Rightarrow> None
      | Some (rw, s') \<Rightarrow> Some \<lparr> thePool = s', attached = True, lastReadBuf = None \<rparr>)"
| "step ndebug bufferSize poolSize DetachReader h =
     Some \<lparr> thePool = snd (detachReader poolSize (thePool h)),
            attached = False, lastReadBuf = None \<rparr>"
| "step ndebug bufferSize poolSize NextWritableBuffer h =
     Some (h\<lparr> thePool := snd (nextWritableBuffer bufferSize poolSize (thePool h)) \<rparr>)"
| "step ndebug bufferSize poolSize (NextReadableBuffer curReadBuf) h =
     (if curReadBuf \<noteq> None \<and> curReadBuf \<noteq> lastReadBuf h then None
      else case nextReadableBuffer ndebug bufferSize poolSize (thePool h) curReadBuf of
             Inl e \<Rightarrow> None
           | Inr (res, s') \<Rightarrow> Some (h\<lparr> thePool := s', lastReadBuf := res \<rparr>))"

fun run :: "bool \<Rightarrow> u32 \<Rightarrow> u32 \<Rightarrow> call list \<Rightarrow> 'a session \<Rightarrow> 'a session option" where
  "run ndebug bufferSize poolSize [] h = Some h"
| "run ndebug bufferSize poolSize (c # cs) h =
     (case step ndebug bufferSize poolSize c h of
        None \<Rightarrow> None
      | Some h' \<Rightarrow> run ndebug bufferSize poolSize cs h')"

text \<open>
  The invariant of a session.  The read index is not the largest 64-bit value, the
  write index is at most \<open>poolSize\<close> ahead of it, it is at most the write index
  while a reader is attached, and a buffer handed to the reader is the slot of
  index \<open>R + 1\<close>, which is below \<open>W\<close>.
\<close>

definition session_inv :: "u32 \<Rightarrow> u32 \<Rightarrow> 'a session \<Rightarrow> bool" where
  "session_inv bufferSize poolSize h \<longleftrightarrow>
     (let W = unat (writeIndex (thePool h)); R = unat (readIndex (thePool h))
      in R < 18446744073709551615 \<and> W \<le> R + unat poolSize \<and> (attached h \<longrightarrow> R \<le> W) \<and>
         (case lastReadBuf h of
            None \<Rightarrow> True
          | Some p \<Rightarrow> p = bufferAt bufferSize poolSize (readIndex (thePool h) + 1) \<and> R + 1 < W))"

subsection \<open>Reading and writing the buffers\<close>

text \<open>
  A buffer is \<open>bufferSize\<close> consecutive elements of \<open>_pool->data()\<close>, starting at the
  element the pointer refers to.  The producer fills the buffer it was handed and
  the consumer reads the buffer it was handed; an access outside the array is
  undefined behaviour in C++ and an error here.
\<close>

definition fillBuffer ::
  "u32 \<Rightarrow> u64 \<Rightarrow> 'a list \<Rightarrow> 'a WaitFreeBufferPool \<Rightarrow> error + 'a WaitFreeBufferPool" where
  "fillBuffer bufferSize p xs s =
     (if length xs = unat bufferSize \<and> unat p + unat bufferSize \<le> length (pool s)
      then Inr (s\<lparr>pool := take (unat p) (pool s) @ xs @ drop (unat p + unat bufferSize) (pool s)\<rparr>)
      else Inl OutOfBounds)"

definition readBuffer ::
  "u32 \<Rightarrow> u64 \<Rightarrow> 'a WaitFreeBufferPool \<Rightarrow> error + 'a list" where
  "readBuffer bufferSize p s =
     (if unat p + unat bufferSize \<le> length (pool s)
      then Inr (take (unat bufferSize) (drop (unat p) (pool s)))
      else Inl OutOfBounds)"

text \<open>The producer asks for the next buffer and fills it, once and for a list of contents.\<close>

definition produce ::
  "u32 \<Rightarrow> u32 \<Rightarrow> 'a list \<Rightarrow> 'a WaitFreeBufferPool \<Rightarrow> error + (u64 \<times> 'a WaitFreeBufferPool)" where
  "produce bufferSize poolSize xs s =
     (case nextWritableBuffer bufferSize poolSize s of
        (p, s') \<Rightarrow>
          (case fillBuffer bufferSize p xs s' of
             Inl e \<Rightarrow> Inl e
           | Inr s'' \<Rightarrow> Inr (p, s'')))"

fun produceAll ::
  "u32 \<Rightarrow> u32 \<Rightarrow> 'a list list \<Rightarrow> 'a WaitFreeBufferPool
     \<Rightarrow> error + (u64 list \<times> 'a WaitFreeBufferPool)" where
  "produceAll bufferSize poolSize [] s = Inr ([], s)"
| "produceAll bufferSize poolSize (xs # xss) s =
     (case produce bufferSize poolSize xs s of
        Inl e \<Rightarrow> Inl e
      | Inr (p, s') \<Rightarrow>
          (case produceAll bufferSize poolSize xss s' of
             Inl e \<Rightarrow> Inl e
           | Inr (ps, s'') \<Rightarrow> Inr (p # ps, s'')))"

text \<open>
  The consumer drains the pool: it calls \<open>nextReadableBuffer\<close> with the buffer of the
  previous call (\<open>nullptr\<close> at first) and reads each buffer it is handed, until the
  call returns \<open>nullptr\<close>.  The result is the contents it has seen, in order.
\<close>

function drain ::
  "bool \<Rightarrow> u32 \<Rightarrow> u32 \<Rightarrow> 'a WaitFreeBufferPool \<Rightarrow> u64 option
     \<Rightarrow> error + ('a list list \<times> 'a WaitFreeBufferPool)" where
  "drain ndebug bufferSize poolSize s curReadBuf =
     (case nextReadableBuffer ndebug bufferSize poolSize s curReadBuf of
        Inl e \<Rightarrow> Inl e
      | Inr (None, s') \<Rightarrow> Inr ([], s')
      | Inr (Some p, s') \<Rightarrow>
          (case readBuffer bufferSize p s' of
             Inl e \<Rightarrow> Inl e
           | Inr xs \<Rightarrow>
               (case drain ndebug bufferSize poolSize s' (Some p) of
                  Inl e \<Rightarrow> Inl e
                | Inr (xss, s'') \<Rightarrow> Inr (xs # xss, s''))))"
  by pat_completeness auto
termination
proof (relation "measure (\<lambda>(ndebug, bufferSize, poolSize, s, curReadBuf).
    case curReadBuf of
      None \<Rightarrow> 18446744073709551616
    | Some q \<Rightarrow> unat (writeIndex s - readIndex s - 2))")
  show "wf (measure (\<lambda>(ndebug, bufferSize, poolSize, s, curReadBuf).
    case curReadBuf of
      None \<Rightarrow> 18446744073709551616
    | Some q \<Rightarrow> unat (writeIndex s - readIndex s - 2)))"
    by simp
next
  fix ndebug :: bool and bufferSize poolSize :: u32 and s s' :: "'a WaitFreeBufferPool"
    and curReadBuf res :: "u64 option" and x and p :: u64
  assume call: "nextReadableBuffer ndebug bufferSize poolSize s curReadBuf = Inr x"
    and x: "(res, s') = x" and res: "res = Some p"
  show "((ndebug, bufferSize, poolSize, s', Some p), (ndebug, bufferSize, poolSize, s, curReadBuf))
      \<in> measure (\<lambda>(ndebug, bufferSize, poolSize, s, curReadBuf).
        case curReadBuf of
          None \<Rightarrow> 18446744073709551616
        | Some q \<Rightarrow> unat (writeIndex s - readIndex s - 2))"
  proof (cases curReadBuf)
    case None
    have "unat (writeIndex s' - readIndex s' - 2) < 18446744073709551616"
      using unsigned_less [of "writeIndex s' - readIndex s' - 2", where 'a = nat] by simp
    with None show ?thesis by simp
  next
    case (Some q)
    define d where "d = writeIndex s - readIndex s - 2"
    from call x res Some have s': "s' = s\<lparr>readIndex := readIndex s + 1\<rparr>"
      and gt: "writeIndex s > readIndex s + 1 + 1"
      by (auto simp add: nextReadableBuffer_def Let_def split: if_splits)
    have "readIndex s + 1 + 1 = readIndex s + 2" by simp
    with gt have "readIndex s + 2 < writeIndex s" by (simp only:)
    then have "writeIndex s \<noteq> readIndex s + 2" by (metis order_less_irrefl)
    then have "d \<noteq> 0" by (auto simp add: d_def algebra_simps)
    then have "unat (d - 1) < unat d"
      by (simp add: unat_minus_one unat_gt_0)
    moreover have "writeIndex s' - readIndex s' - 2 = d - 1" by (simp add: s' d_def)
    ultimately have "unat (writeIndex s' - readIndex s' - 2) < unat (writeIndex s - readIndex s - 2)"
      by (simp only: d_def)
    with Some show ?thesis by simp
  qed
qed

section \<open>Facts about the arithmetic of the pool\<close>

lemma unat_u32_bound: "unat (n::u32) < 4294967296"
  using unsigned_less [of n, where 'a = nat] by simp

lemma unat_u64_bound: "unat (n::u64) < 18446744073709551616"
  using unsigned_less [of n, where 'a = nat] by simp

lemma unat_ucast_u32: "unat (ucast (n::u32) :: u64) = unat n"
proof -
  have "unat n < 2 ^ 64"
    using unat_u32_bound [of n] by simp
  then show ?thesis
    by (simp add: unsigned_ucast_eq take_bit_nat_eq_self)
qed

lemma and_pred_zero_is_power:
  "0 < (n::nat) \<Longrightarrow> n AND (n - 1) = 0 \<Longrightarrow> \<exists>k. n = 2 ^ k"
proof (induction n rule: less_induct)
  case (less n)
  show ?case
  proof (cases "even n")
    case True
    then obtain m where m: "n = 2 * m" by (auto elim: evenE)
    with less.prems have m0: "0 < m" by simp
    have "n - 1 = 2 * (m - 1) + 1" using m m0 by simp
    then have "n AND (n - 1) = 2 * (m AND (m - 1))"
      using m by (simp add: and_nat_rec[of "2 * m"])
    with less.prems have "m AND (m - 1) = 0" by simp
    moreover have "m < n" using m m0 by simp
    ultimately obtain k where "m = 2 ^ k" using less.IH m0 by blast
    then have "n = 2 ^ Suc k" using m by simp
    then show ?thesis by blast
  next
    case False
    then obtain m where m: "n = 2 * m + 1" by (auto elim: oddE)
    then have "n AND (n - 1) = 2 * m"
      by (simp add: and_nat_rec[of "Suc (2 * m)"])
    with less.prems have "m = 0" by simp
    then have "n = 2 ^ 0" using m by simp
    then show ?thesis by blast
  qed
qed

lemma poolSize_is_power:
  assumes "isPoolSizeValid N"
  shows "\<exists>k. 0 < k \<and> k < 32 \<and> unat N = 2 ^ k"
proof -
  from assms have gt: "1 < N" and z: "N AND (N - 1) = 0"
    by (simp_all add: isPoolSizeValid_def)
  from gt have n1: "1 < unat N" by (simp add: word_less_nat_alt)
  then have "N \<noteq> 0" by auto
  then have "unat (N - 1) = unat N - 1" by (rule unat_minus_one)
  with z have "unat N AND (unat N - 1) = 0"
    by (metis unsigned_and_eq unsigned_0)
  with n1 obtain k where k: "unat N = 2 ^ k"
    using and_pred_zero_is_power [of "unat N"] by auto
  with n1 have "0 < k" by (cases k) auto
  moreover have "k < 32"
  proof (rule ccontr)
    assume "\<not> k < 32"
    then have "32 \<le> k" by simp
    then have "(2::nat) ^ 32 \<le> 2 ^ k" by (rule power_increasing) simp
    with k unat_u32_bound [of N] show False by simp
  qed
  ultimately show ?thesis using k by blast
qed

lemma unat_and_poolSizeMask:
  assumes "isPoolSizeValid N"
  shows "unat (w AND poolSizeMask N) = unat w mod unat N"
proof -
  from poolSize_is_power [OF assms] obtain k where k: "0 < k" "k < 32" "unat N = 2 ^ k"
    by blast
  have "N \<noteq> 0" using k by auto
  then have "unat (N - 1) = 2 ^ k - 1" using k by (simp add: unat_minus_one)
  then have "unat (poolSizeMask N) = 2 ^ k - 1"
    by (simp add: poolSizeMask_def unat_ucast_u32)
  then have "unat (poolSizeMask N) = mask k" by (simp add: mask_eq_exp_minus_1)
  then have "unat (w AND poolSizeMask N) = unat w AND mask k"
    by (simp add: unsigned_and_eq)
  also have "\<dots> = unat w mod 2 ^ k"
    by (simp add: take_bit_eq_mask [symmetric] take_bit_eq_mod)
  finally show ?thesis using k by simp
qed

lemma unat_bufferAt:
  assumes "isPoolSizeValid N"
  shows "unat (bufferAt B N w) = (unat w mod unat N) * unat B"
proof -
  have "unat w mod unat N < 4294967296"
    using unat_u32_bound [of N] assms
    by (metis less_trans mod_less_divisor poolSize_is_power zero_less_numeral zero_less_power)
  then have "(unat w mod unat N) * unat B < 4294967296 * 4294967296"
    using unat_u32_bound [of B] by (intro mult_strict_mono) auto
  then have "unat (w AND poolSizeMask N) * unat (ucast B :: u64) < 2 ^ 64"
    by (simp add: unat_and_poolSizeMask [OF assms] unat_ucast_u32)
  then have "unat ((w AND poolSizeMask N) * ucast B) = unat (w AND poolSizeMask N) * unat (ucast B :: u64)"
    by (simp add: unat_mult_lem [THEN iffD1])
  then show ?thesis
    by (simp add: bufferAt_def unat_and_poolSizeMask [OF assms] unat_ucast_u32)
qed

lemma isPoolSizeValid_4: "isPoolSizeValid 4"
  by (simp add: isPoolSizeValid_def)

lemma poolSize_pos: "isPoolSizeValid N \<Longrightarrow> 1 < unat N"
  by (simp add: isPoolSizeValid_def word_less_nat_alt)

lemma poolSizeMask_eq:
  assumes "isPoolSizeValid N"
  shows "poolSizeMask N = ucast N - 1"
proof -
  from poolSize_pos [OF assms] have "N \<noteq> 0" by auto
  then have "unat (N - 1) = unat N - 1" by (rule unat_minus_one)
  moreover have "(ucast N :: u64) \<noteq> 0"
    using poolSize_pos [OF assms] unat_ucast_u32 [of N] by (metis not_less_zero unsigned_0)
  then have "unat ((ucast N :: u64) - 1) = unat N - 1"
    by (simp add: unat_minus_one unat_ucast_u32)
  ultimately have "unat (poolSizeMask N) = unat ((ucast N :: u64) - 1)"
    by (simp add: poolSizeMask_def unat_ucast_u32)
  then show ?thesis by (simp add: word_unat_eq_iff)
qed

text \<open>
  The admission test of the producer is a comparison of 64-bit values.  It is the
  comparison of the unbounded sum whenever \<open>rindex + poolSize\<close> does not wrap, which
  is the case up to \<open>readIndexMax\<close>.
\<close>

lemma unat_readIndexMax: "unat (readIndexMax N) = 18446744073709551615 - unat N"
proof -
  have "(ucast N :: u64) \<le> - 1" by simp
  then have "unat ((- 1 :: u64) - ucast N) = unat (- 1 :: u64) - unat (ucast N :: u64)"
    by (rule unat_sub)
  moreover have "unat (- 1 :: u64) = 18446744073709551615"
    by (simp add: unsigned_minus_1_eq_mask mask_eq_exp_minus_1)
  ultimately show ?thesis by (simp add: readIndexMax_def unat_ucast_u32)
qed

lemma unat_add_poolSize:
  assumes "r \<le> readIndexMax N"
  shows "unat (r + ucast N) = unat r + unat N"
proof -
  from assms have "unat r \<le> 18446744073709551615 - unat N"
    by (simp add: word_le_nat_alt unat_readIndexMax)
  moreover have "unat N < 4294967296" by (rule unat_u32_bound)
  ultimately have "unat r + unat (ucast N :: u64) < 2 ^ 64"
    by (simp add: unat_ucast_u32)
  then show ?thesis
    by (simp add: unat_add_lem [THEN iffD1] unat_ucast_u32)
qed

lemma admission_test_no_wrap:
  "r \<le> readIndexMax N \<Longrightarrow> w < r + ucast N \<longleftrightarrow> unat w < unat r + unat N"
  by (simp add: word_less_nat_alt unat_add_poolSize)

lemma unat_add_poolSize_le: "unat (r + ucast N) \<le> unat r + unat N"
  for r :: u64 and N :: u32
  by (simp add: unat_plus_if' unat_ucast_u32)

lemma unat_Suc_of_less:
  fixes w x :: u64
  assumes "w < x"
  shows "unat (w + 1) = unat w + 1"
proof -
  from assms have "unat w < unat x" by (simp add: word_less_nat_alt)
  with unat_u64_bound [of x] show ?thesis
    by (simp add: unat_plus_if')
qed

section \<open>The producer\<close>

lemma admission_test_wrapped:
  fixes r w :: u64 and N :: u32
  assumes "readIndexMax N < r" and "unat r \<le> unat w"
  shows "\<not> w < r + ucast N"
proof -
  from assms(1) have "18446744073709551615 - unat N < unat r"
    by (simp add: word_less_nat_alt unat_readIndexMax)
  moreover have "unat N < 4294967296" by (rule unat_u32_bound)
  moreover have "unat r < 18446744073709551616" by (rule unat_u64_bound)
  ultimately have "unat (r + ucast N) = unat r + unat N - 18446744073709551616"
    by (simp add: unat_plus_if' unat_ucast_u32)
  with \<open>unat N < 4294967296\<close> \<open>unat r < 18446744073709551616\<close> assms(2)
  have "unat (r + ucast N) \<le> unat w" by simp
  then show ?thesis by (simp add: word_less_nat_alt)
qed

text \<open>
  C1, as the code has it.  The admission test \<open>windex < rindex + poolSize\<close> compares
  64-bit values.  When it succeeds, and so whenever \<open>W < R + N\<close> holds of the
  numbers and \<open>R\<close> is at most \<open>readIndexMax\<close>, \<open>nextWritableBuffer\<close> stores
  \<open>windex + 1\<close>, the write index plus one without wrap-around, and touches nothing
  else.  For a read index above \<open>readIndexMax\<close> that is not above the write index the
  sum wraps and the call takes the other branch.  In both branches the pointer
  returned is \<open>bufferAt\<close> of the write index after the call: the element offset of
  slot \<open>W mod poolSize\<close>, where the remainder is computed as \<open>W AND (poolSize - 1)\<close>.
\<close>

theorem nextWritableBuffer_returns_slot_at_writeIndex:
  assumes "isPoolSizeValid poolSize"
  shows "(case nextWritableBuffer bufferSize poolSize s of (p, s') \<Rightarrow>
           (writeIndex s < readIndex s + ucast poolSize \<or>
            (readIndex s \<le> readIndexMax poolSize \<and>
             unat (writeIndex s) < unat (readIndex s) + unat poolSize) \<longrightarrow>
              writeIndex s' = writeIndex s + 1 \<and>
              unat (writeIndex s') = unat (writeIndex s) + 1 \<and>
              readIndex s' = readIndex s \<and> overflowCount s' = overflowCount s \<and>
              pool s' = pool s) \<and>
           (readIndexMax poolSize < readIndex s \<and>
            unat (readIndex s) \<le> unat (writeIndex s) \<longrightarrow>
              s' = s\<lparr>overflowCount := overflowCount s + 1\<rparr>) \<and>
           p = bufferAt bufferSize poolSize (writeIndex s') \<and>
           p = (writeIndex s' AND (ucast poolSize - 1)) * ucast bufferSize \<and>
           unat (writeIndex s' AND (ucast poolSize - 1)) = unat (writeIndex s') mod unat poolSize \<and>
           unat p = (unat (writeIndex s') mod unat poolSize) * unat bufferSize) \<and>
         (readIndex s \<le> readIndexMax poolSize \<longrightarrow>
            (writeIndex s < readIndex s + ucast poolSize
               \<longleftrightarrow> unat (writeIndex s) < unat (readIndex s) + unat poolSize))"
proof -
  have nw: "writeIndex s < readIndex s + ucast poolSize
      \<longleftrightarrow> unat (writeIndex s) < unat (readIndex s) + unat poolSize"
    if "readIndex s \<le> readIndexMax poolSize"
    using that by (rule admission_test_no_wrap)
  have wr: "\<not> writeIndex s < readIndex s + ucast poolSize"
    if "readIndexMax poolSize < readIndex s \<and> unat (readIndex s) \<le> unat (writeIndex s)"
    using that by (simp add: admission_test_wrapped)
  have "case nextWritableBuffer bufferSize poolSize s of (p, s') \<Rightarrow>
           (writeIndex s < readIndex s + ucast poolSize \<longrightarrow>
              writeIndex s' = writeIndex s + 1 \<and>
              unat (writeIndex s') = unat (writeIndex s) + 1 \<and>
              readIndex s' = readIndex s \<and> overflowCount s' = overflowCount s \<and>
              pool s' = pool s) \<and>
           (\<not> writeIndex s < readIndex s + ucast poolSize \<longrightarrow>
              s' = s\<lparr>overflowCount := overflowCount s + 1\<rparr>) \<and>
           p = bufferAt bufferSize poolSize (writeIndex s') \<and>
           p = (writeIndex s' AND (ucast poolSize - 1)) * ucast bufferSize \<and>
           unat (writeIndex s' AND (ucast poolSize - 1)) = unat (writeIndex s') mod unat poolSize \<and>
           unat p = (unat (writeIndex s') mod unat poolSize) * unat bufferSize"
  proof (cases "writeIndex s < readIndex s + ucast poolSize")
    case True
    then have "unat (writeIndex s + 1) = unat (writeIndex s) + 1"
      by (rule unat_Suc_of_less)
    with True show ?thesis
      using unat_bufferAt [OF assms, of bufferSize "writeIndex s + 1"]
        unat_and_poolSizeMask [OF assms, of "writeIndex s + 1"]
      by (simp add: nextWritableBuffer_def Let_def bufferAt_def poolSizeMask_eq [OF assms])
  next
    case False
    then show ?thesis
      using unat_bufferAt [OF assms, of bufferSize "writeIndex s"]
        unat_and_poolSizeMask [OF assms, of "writeIndex s"]
      by (simp add: nextWritableBuffer_def Let_def bufferAt_def poolSizeMask_eq [OF assms])
  qed
  moreover obtain p s' where e: "nextWritableBuffer bufferSize poolSize s = (p, s')"
    by (cases "nextWritableBuffer bufferSize poolSize s")
  ultimately show ?thesis
    unfolding e prod.case using nw wr by blast
qed

theorem nextWritableBuffer_returns_slot_at_writeIndex_witness:
  "isPoolSizeValid 4 \<and>
   writeIndex (initial 4 4 :: u64 WaitFreeBufferPool)
     < readIndex (initial 4 4 :: u64 WaitFreeBufferPool) + ucast (4 :: u32) \<and>
   writeIndex (snd (nextWritableBuffer 4 4 (initial 4 4 :: u64 WaitFreeBufferPool))) = 1 \<and>
   fst (nextWritableBuffer 4 4 (initial 4 4 :: u64 WaitFreeBufferPool)) = 4"
proof -
  have v: "isPoolSizeValid 4" by (simp add: isPoolSizeValid_def)
  show ?thesis
    using v nextWritableBuffer_returns_slot_at_writeIndex
      [OF v, of "initial 4 4 :: u64 WaitFreeBufferPool" 4]
    by (simp add: initial_def readIndexMax_def bufferAt_def poolSizeMask_def
        nextWritableBuffer_def word_greater_zero_iff)
qed

section \<open>Attaching a reader\<close>

lemma unat_proposedReadIndex: "unat (proposedReadIndex w) = unat w - 1"
  by (simp add: proposedReadIndex_def unat_minus_one)

lemma attachReader_loop_exit:
  "\<not> loads i > proposedReadIndex w + ucast N \<Longrightarrow>
   attachReader_loop N loads i w = Some (proposedReadIndex w, loads i)"
  by (subst attachReader_loop.simps) (simp add: proposedReadIndex_def Let_def)

lemma attachReader_loop_retry:
  "loads i > proposedReadIndex w + ucast N \<Longrightarrow>
   attachReader_loop N loads i w = attachReader_loop N loads (Suc i) (loads i)"
  by (subst attachReader_loop.simps) (simp add: proposedReadIndex_def Let_def)

lemmas attachReader_loop_induct =
  attachReader_loop.raw_induct [rotated 1, consumes 1, case_names loop]

text \<open>What a returning loop has seen, for a loop entered at iteration \<open>i\<close>.\<close>

lemma attachReader_loop_Some:
  assumes "attachReader_loop N loads i w = Some y"
  shows "\<exists>k. i \<le> k \<and>
           y = (proposedReadIndex (if k = i then w else loads (k - 1)), loads k) \<and>
           \<not> loads k > proposedReadIndex (if k = i then w else loads (k - 1)) + ucast N \<and>
           (\<forall>j. i \<le> j \<longrightarrow> j < k \<longrightarrow>
              loads j > proposedReadIndex (if j = i then w else loads (j - 1)) + ucast N)"
  using assms
proof (induction N loads i w y rule: attachReader_loop_induct)
  case (loop f N loads i w y)
  show ?case
  proof (cases "loads i > proposedReadIndex w + ucast N")
    case False
    with loop(2) have "y = (proposedReadIndex w, loads i)"
      by (simp add: proposedReadIndex_def Let_def)
    with False show ?thesis by (intro exI [of _ i]) simp
  next
    case True
    with loop(2) have "f N loads (Suc i) (loads i) = Some y"
      by (simp add: proposedReadIndex_def Let_def)
    from loop(1) [OF this] obtain k where k: "Suc i \<le> k"
      "y = (proposedReadIndex (if k = Suc i then loads i else loads (k - 1)), loads k)"
      "\<not> loads k > proposedReadIndex (if k = Suc i then loads i else loads (k - 1)) + ucast N"
      "\<forall>j. Suc i \<le> j \<longrightarrow> j < k \<longrightarrow>
          loads j > proposedReadIndex (if j = Suc i then loads i else loads (j - 1)) + ucast N"
      by blast
    have eq: "(if j = Suc i then loads i else loads (j - 1)) = (if j = i then w else loads (j - 1))"
      if "Suc i \<le> j" for j
      using that by auto
    have "loads j > proposedReadIndex (if j = i then w else loads (j - 1)) + ucast N"
      if j: "i \<le> j" "j < k" for j
    proof (cases "j = i")
      case True
      with \<open>loads i > proposedReadIndex w + ucast N\<close> show ?thesis by simp
    next
      case False
      with j have *: "Suc i \<le> j" by simp
      with k(4) j(2)
      have "loads j > proposedReadIndex (if j = Suc i then loads i else loads (j - 1)) + ucast N"
        by blast
      then show ?thesis unfolding eq [OF *] .
    qed
    moreover have "i \<le> k" using k(1) by simp
    moreover have "y = (proposedReadIndex (if k = i then w else loads (k - 1)), loads k)"
      using k(2) unfolding eq [OF k(1)] .
    moreover have "\<not> loads k > proposedReadIndex (if k = i then w else loads (k - 1)) + ucast N"
      using k(3) unfolding eq [OF k(1)] .
    ultimately show ?thesis by blast
  qed
qed

lemma attachReader_loop_first_exit:
  assumes "\<not> lapped N w loads k" and "\<forall>j<k. lapped N w loads j"
  shows "attachReader_loop N loads 0 w = Some (proposedReadIndex (loadedBefore w loads k), loads k)"
proof -
  have "\<And>i. i \<le> k \<Longrightarrow> attachReader_loop N loads 0 w
       = attachReader_loop N loads i (loadedBefore w loads i)"
  proof -
    fix i show "i \<le> k \<Longrightarrow> attachReader_loop N loads 0 w
       = attachReader_loop N loads i (loadedBefore w loads i)"
    proof (induction i)
      case 0 show ?case by (simp add: loadedBefore_def)
    next
      case (Suc i)
      then have "lapped N w loads i" using assms(2) by simp
      then have "attachReader_loop N loads i (loadedBefore w loads i)
        = attachReader_loop N loads (Suc i) (loads i)"
        unfolding lapped_def by (rule attachReader_loop_retry)
      with Suc show ?case by (simp add: loadedBefore_def)
    qed
  qed
  from this [of k] assms(1) show ?thesis
    by (simp add: lapped_def attachReader_loop_exit)
qed

lemma attachReader_loop_result:
  assumes "attachReader_loop N loads 0 w = Some (r, w')"
  shows "\<exists>k. w' = loads k \<and> r = proposedReadIndex (loadedBefore w loads k) \<and>
           \<not> lapped N w loads k \<and> (\<forall>j<k. lapped N w loads j)"
proof -
  from attachReader_loop_Some [OF assms] obtain k where k: "0 \<le> k \<and>
     (r, w') = (proposedReadIndex (if k = 0 then w else loads (k - 1)), loads k) \<and>
     \<not> loads k > proposedReadIndex (if k = 0 then w else loads (k - 1)) + ucast N \<and>
     (\<forall>j. 0 \<le> j \<longrightarrow> j < k \<longrightarrow>
              loads j > proposedReadIndex (if j = 0 then w else loads (j - 1)) + ucast N)"
    ..
  have lb: "\<And>j. loadedBefore w loads j = (if j = 0 then w else loads (j - 1))"
    by (simp add: loadedBefore_def split: nat.splits)
  from k show ?thesis
    by (intro exI [of _ k]) (simp add: lapped_def lb)
qed

text \<open>With no producer running, every reload returns the same value.\<close>

lemma attachReader_quiescent:
  assumes "\<not> writeIndex s > proposedReadIndex (writeIndex s) + ucast N"
  shows "attachReader N s =
    Some ((proposedReadIndex (writeIndex s), writeIndex s),
          s\<lparr>readIndex := proposedReadIndex (writeIndex s)\<rparr>)"
  using assms by (simp add: attachReader_def attachReader_loop_exit)

lemma attachReader_loop_diverges:
  assumes "c > proposedReadIndex c + ucast N"
  shows "attachReader_loop N (\<lambda>_. c) i c = None"
proof (rule ccontr)
  assume "attachReader_loop N (\<lambda>_. c) i c \<noteq> None"
  then obtain y where "attachReader_loop N (\<lambda>_. c) i c = Some y" by blast
  from attachReader_loop_Some [OF this] obtain k where
    "\<not> c > proposedReadIndex (if k = i then c else c) + ucast N" by blast
  with assms show False by simp
qed

lemma attachReader_Some:
  assumes "attachReader N s = Some (rw, s')"
  shows "\<not> writeIndex s > proposedReadIndex (writeIndex s) + ucast N \<and>
    rw = (proposedReadIndex (writeIndex s), writeIndex s) \<and>
    s' = s\<lparr>readIndex := proposedReadIndex (writeIndex s)\<rparr>"
proof (cases "writeIndex s > proposedReadIndex (writeIndex s) + ucast N")
  case True
  then have "attachReader N s = None"
    by (simp add: attachReader_def attachReader_loop_diverges)
  with assms show ?thesis by simp
next
  case False
  with assms attachReader_quiescent [OF False] show ?thesis by simp
qed

lemma int_pred_max: "int (n - 1) = max (int n - 1) 0"
  by linarith

lemma unat_le_of_not_lapped:
  fixes r w :: u64 and N :: u32
  assumes "\<not> w > r + ucast N"
  shows "int (unat w) - int (unat r) \<le> int (unat N)"
proof -
  from assms have "unat w \<le> unat (r + ucast N)"
    by (simp add: word_less_nat_alt)
  also have "\<dots> \<le> unat r + unat N" by (rule unat_add_poolSize_le)
  finally show ?thesis by linarith
qed

lemma attachReader_quiescent_cases:
  assumes "isPoolSizeValid N"
  shows "attachReader N s =
     (if writeIndex s = 0 then Some ((0, 0), s\<lparr>readIndex := 0\<rparr>)
      else if unat (writeIndex s) + unat N \<le> 2 ^ 64
        then Some ((writeIndex s - 1, writeIndex s), s\<lparr>readIndex := writeIndex s - 1\<rparr>)
      else None)"
proof -
  let ?w = "writeIndex s"
  from poolSize_pos [OF assms] have n1: "1 < unat N" .
  have n32: "unat N < 4294967296" by (rule unat_u32_bound)
  have w64: "unat ?w < 18446744073709551616" by (rule unat_u64_bound)
  show ?thesis
  proof (cases "?w = 0")
    case True
    then show ?thesis
      using attachReader_quiescent [of s N]
      by (simp add: proposedReadIndex_def word_less_nat_alt)
  next
    case False
    then have p: "proposedReadIndex ?w = ?w - 1" by (simp add: proposedReadIndex_def)
    from False have u: "unat (?w - 1) = unat ?w - 1" by (rule unat_minus_one)
    from False have w0: "0 < unat ?w" by (simp add: unat_gt_0)
    show ?thesis
    proof (cases "unat ?w + unat N \<le> 2 ^ 64")
      case True
      with w0 have "unat (?w - 1) + unat (ucast N :: u64) < 2 ^ 64"
        by (simp add: u unat_ucast_u32)
      then have "unat (?w - 1 + ucast N) = unat (?w - 1) + unat (ucast N :: u64)"
        by (simp add: unat_plus_if')
      with n1 w0 have "\<not> ?w > proposedReadIndex ?w + ucast N"
        by (simp add: p u word_less_nat_alt unat_ucast_u32)
      from attachReader_quiescent [OF this] False True show ?thesis by (simp add: p)
    next
      case over: False
      with w0 n32 w64 have "unat (?w - 1 + ucast N) = unat ?w - 1 + unat N - 2 ^ 64"
        by (simp add: unat_plus_if' u unat_ucast_u32)
      with n32 w64 w0 have "?w > proposedReadIndex ?w + ucast N"
        by (simp add: p word_less_nat_alt)
      then have "attachReader N s = None"
        by (simp add: attachReader_def attachReader_loop_diverges)
      with False over show ?thesis by simp
    qed
  qed
qed

lemma lapped_no_wrap:
  assumes "proposedReadIndex (loadedBefore w loads k) \<le> readIndexMax N"
  shows "lapped N w loads k \<longleftrightarrow>
    unat (loads k) > unat (proposedReadIndex (loadedBefore w loads k)) + unat N"
  by (simp add: lapped_def word_less_nat_alt unat_add_poolSize [OF assms])

text \<open>
  C5, as the code has it.  For every sequence of values the reloads of
  \<open>_writeIndex\<close> return: when the loop returns \<open>(R, W)\<close>, \<open>W\<close> is the reload of some
  iteration \<open>k\<close>, \<open>R\<close> is the proposal made from the write index loaded just before
  it (\<open>W - 1\<close>, or \<open>0\<close> for \<open>0\<close>), every earlier iteration was lapped and iteration
  \<open>k\<close> was not, and \<open>W - R \<le> N\<close>.  Conversely the loop returns at the first
  iteration that is not lapped.  The retry test compares 64-bit values; it is the
  comparison \<open>W > R + N\<close> of the numbers for a proposal up to \<open>readIndexMax\<close>.  On
  a pool state with no producer running the call stores the proposal in the read
  index and returns \<open>(W - 1, W)\<close> for \<open>1 \<le> W \<le> 2 ^ 64 - N\<close> and \<open>(0, 0)\<close> for
  \<open>W = 0\<close>; for a larger \<open>W\<close> the sum wraps and the call does not return.
\<close>

theorem attachReader_retries_while_lapped:
  "(\<forall>r w'. attachReader_loop N loads 0 w = Some (r, w') \<longrightarrow>
      (\<exists>k. w' = loads k \<and> r = proposedReadIndex (loadedBefore w loads k) \<and>
           (\<forall>j<k. lapped N w loads j) \<and> \<not> lapped N w loads k \<and>
           \<not> w' > r + ucast N \<and>
           int (unat w') - int (unat r) \<le> int (unat N) \<and>
           int (unat r) = max (int (unat (loadedBefore w loads k)) - 1) 0)) \<and>
   (\<forall>k. (\<forall>j<k. lapped N w loads j) \<and> \<not> lapped N w loads k \<longrightarrow>
      attachReader_loop N loads 0 w
        = Some (proposedReadIndex (loadedBefore w loads k), loads k)) \<and>
   (\<forall>k. proposedReadIndex (loadedBefore w loads k) \<le> readIndexMax N \<longrightarrow>
      (lapped N w loads k \<longleftrightarrow>
         unat (loads k) > unat (proposedReadIndex (loadedBefore w loads k)) + unat N)) \<and>
   (\<forall>rw s'. attachReader N s = Some (rw, s') \<longrightarrow>
      attachReader_loop N (\<lambda>_. writeIndex s) 0 (writeIndex s) = Some rw \<and>
      s' = s\<lparr>readIndex := fst rw\<rparr> \<and>
      rw = (proposedReadIndex (writeIndex s), writeIndex s)) \<and>
   (isPoolSizeValid N \<longrightarrow>
      attachReader N s =
        (if writeIndex s = 0 then Some ((0, 0), s\<lparr>readIndex := 0\<rparr>)
         else if unat (writeIndex s) + unat N \<le> 2 ^ 64
           then Some ((writeIndex s - 1, writeIndex s), s\<lparr>readIndex := writeIndex s - 1\<rparr>)
         else None)) \<and>
   (writeIndex s = 0 \<longrightarrow> attachReader N s = Some ((0, 0), s\<lparr>readIndex := 0\<rparr>))"
proof (intro conjI allI impI)
  fix r w'
  assume "attachReader_loop N loads 0 w = Some (r, w')"
  from attachReader_loop_result [OF this] obtain k where k:
    "w' = loads k" "r = proposedReadIndex (loadedBefore w loads k)"
    "\<not> lapped N w loads k" "\<forall>j<k. lapped N w loads j"
    by blast
  from k(1,2,3) have nl: "\<not> w' > r + ucast N" by (simp add: lapped_def)
  have "int (unat r) = max (int (unat (loadedBefore w loads k)) - 1) 0"
    unfolding k(2) unat_proposedReadIndex by (rule int_pred_max)
  with k nl unat_le_of_not_lapped [OF nl]
  show "\<exists>k. w' = loads k \<and> r = proposedReadIndex (loadedBefore w loads k) \<and>
           (\<forall>j<k. lapped N w loads j) \<and> \<not> lapped N w loads k \<and>
           \<not> w' > r + ucast N \<and>
           int (unat w') - int (unat r) \<le> int (unat N) \<and>
           int (unat r) = max (int (unat (loadedBefore w loads k)) - 1) 0"
    by blast
next
  fix k
  assume "(\<forall>j<k. lapped N w loads j) \<and> \<not> lapped N w loads k"
  then show "attachReader_loop N loads 0 w
        = Some (proposedReadIndex (loadedBefore w loads k), loads k)"
    by (simp add: attachReader_loop_first_exit)
next
  fix k
  assume "proposedReadIndex (loadedBefore w loads k) \<le> readIndexMax N"
  then show "lapped N w loads k \<longleftrightarrow>
         unat (loads k) > unat (proposedReadIndex (loadedBefore w loads k)) + unat N"
    by (rule lapped_no_wrap)
next
  fix rw s'
  assume a: "attachReader N s = Some (rw, s')"
  from attachReader_Some [OF a]
  have nl: "\<not> writeIndex s > proposedReadIndex (writeIndex s) + ucast N"
    and rw: "rw = (proposedReadIndex (writeIndex s), writeIndex s)"
    and s': "s' = s\<lparr>readIndex := proposedReadIndex (writeIndex s)\<rparr>"
    by simp_all
  from nl rw show "attachReader_loop N (\<lambda>_. writeIndex s) 0 (writeIndex s) = Some rw"
    by (simp add: attachReader_loop_exit)
  from rw s' show "s' = s\<lparr>readIndex := fst rw\<rparr>" by simp
  from rw show "rw = (proposedReadIndex (writeIndex s), writeIndex s)" .
next
  assume "isPoolSizeValid N"
  then show "attachReader N s =
        (if writeIndex s = 0 then Some ((0, 0), s\<lparr>readIndex := 0\<rparr>)
         else if unat (writeIndex s) + unat N \<le> 2 ^ 64
           then Some ((writeIndex s - 1, writeIndex s), s\<lparr>readIndex := writeIndex s - 1\<rparr>)
         else None)"
    by (rule attachReader_quiescent_cases)
next
  assume "writeIndex s = 0"
  then show "attachReader N s = Some ((0, 0), s\<lparr>readIndex := 0\<rparr>)"
    using attachReader_quiescent [of s N]
    by (simp add: proposedReadIndex_def word_less_nat_alt)
qed

theorem attachReader_retries_while_lapped_witness:
  "lapped 4 0 (\<lambda>_. 10) 0 \<and> \<not> lapped 4 0 (\<lambda>_. 10) 1 \<and>
   attachReader_loop 4 (\<lambda>_. 10) 0 0 = Some (9, 10) \<and>
   writeIndex (initial 4 4 :: u64 WaitFreeBufferPool) = 0 \<and>
   attachReader 4 (initial 4 4 :: u64 WaitFreeBufferPool)
     = Some ((0, 0), (initial 4 4)\<lparr>readIndex := 0\<rparr>) \<and>
   isPoolSizeValid 4 \<and>
   attachReader 4
     \<lparr>writeIndex = 10, readIndex = 7, pool = replicate 16 (0 :: u64), overflowCount = 0\<rparr>
     = Some ((9, 10),
        \<lparr>writeIndex = 10, readIndex = 9, pool = replicate 16 0, overflowCount = 0\<rparr>)"
proof -
  have v: "isPoolSizeValid 4" by (simp add: isPoolSizeValid_def)
  let ?t = "\<lparr>writeIndex = 10, readIndex = 7, pool = replicate 16 (0 :: u64), overflowCount = 0\<rparr>"
  from attachReader_retries_while_lapped [of 4 "\<lambda>_. 10" 0 ?t] v
  have "attachReader 4 ?t =
        (if writeIndex ?t = 0 then Some ((0, 0), ?t\<lparr>readIndex := 0\<rparr>)
         else if unat (writeIndex ?t) + unat (4 :: u32) \<le> 2 ^ 64
           then Some ((writeIndex ?t - 1, writeIndex ?t), ?t\<lparr>readIndex := writeIndex ?t - 1\<rparr>)
         else None)"
    by blast
  then have e: "attachReader 4 ?t
     = Some ((9, 10),
        \<lparr>writeIndex = 10, readIndex = 9, pool = replicate 16 0, overflowCount = 0\<rparr>)"
    by simp
  have a: "lapped 4 0 (\<lambda>_. 10) 0"
    by (simp add: lapped_def loadedBefore_def proposedReadIndex_def)
  have b: "\<not> lapped 4 0 (\<lambda>_. 10) 1"
    by (simp add: lapped_def loadedBefore_def proposedReadIndex_def)
  have c: "\<forall>j<1. lapped 4 0 (\<lambda>_. 10) j" using a by simp
  have d: "writeIndex (initial 4 4 :: u64 WaitFreeBufferPool) = 0"
    by (simp add: initial_def)
  note inst = attachReader_retries_while_lapped
    [of 4 "\<lambda>_. 10" 0 "initial 4 4 :: u64 WaitFreeBufferPool"]
  from inst b c have "attachReader_loop 4 (\<lambda>_. 10) 0 0
      = Some (proposedReadIndex (loadedBefore 0 (\<lambda>_. 10) 1), 10)"
    by blast
  moreover from inst d have "attachReader 4 (initial 4 4 :: u64 WaitFreeBufferPool)
     = Some ((0, 0), (initial 4 4)\<lparr>readIndex := 0\<rparr>)"
    by blast
  ultimately show ?thesis using a b d v e
    by (simp add: loadedBefore_def proposedReadIndex_def)
qed

section \<open>Detaching and attaching again\<close>

text \<open>
  C6, as the code has it.  \<open>detachReader\<close> returns the two indices as they were and
  stores \<open>readIndexMax\<close>.  An \<open>attachReader\<close> right after it, with no producer
  activity, returns \<open>(W - 1, W)\<close> when \<open>1 \<le> W \<le> 2 ^ 64 - N\<close>, returns \<open>(0, 0)\<close>
  when \<open>W = 0\<close>, and does not return for a larger \<open>W\<close>.
\<close>

theorem detachReader_then_attachReader:
  assumes "isPoolSizeValid N"
  shows "detachReader N s = ((readIndex s, writeIndex s), s\<lparr>readIndex := readIndexMax N\<rparr>) \<and>
     attachReader N (snd (detachReader N s)) =
       (if writeIndex s = 0 then Some ((0, 0), s\<lparr>readIndex := 0\<rparr>)
        else if unat (writeIndex s) + unat N \<le> 2 ^ 64
          then Some ((writeIndex s - 1, writeIndex s), s\<lparr>readIndex := writeIndex s - 1\<rparr>)
        else None)"
  by (simp add: attachReader_quiescent_cases [OF assms] detachReader_def Let_def)

theorem detachReader_then_attachReader_witness:
  "isPoolSizeValid 4 \<and>
   attachReader 4 (snd (detachReader 4
       \<lparr>writeIndex = 10, readIndex = 7, pool = replicate 16 (0::u64), overflowCount = 0\<rparr>))
     = Some ((9, 10),
       \<lparr>writeIndex = 10, readIndex = 9, pool = replicate 16 (0::u64), overflowCount = 0\<rparr>)"
proof -
  have v: "isPoolSizeValid 4" by (simp add: isPoolSizeValid_def)
  show ?thesis
    using v detachReader_then_attachReader [OF v,
      of "\<lparr>writeIndex = 10, readIndex = 7, pool = replicate 16 (0::u64), overflowCount = 0\<rparr>"]
    by (simp add: detachReader_def)
qed

text \<open>
  The claim as the specification states it asks for \<open>(W - 1, W)\<close> in every pool
  state.  On a freshly constructed pool \<open>W\<close> is \<open>0\<close> and the call returns \<open>(0, 0)\<close>.
\<close>

theorem detachReader_then_attachReader_at_zero:
  "attachReader 4 (snd (detachReader 4 (initial 4 4 :: u64 WaitFreeBufferPool)))
     = Some ((0, 0), (initial 4 4)\<lparr>readIndex := 0\<rparr>) \<and>
   (0 :: u64, 0 :: u64) \<noteq> (writeIndex (initial 4 4 :: u64 WaitFreeBufferPool) - 1,
                             writeIndex (initial 4 4 :: u64 WaitFreeBufferPool)) \<and>
   int (unat (0 :: u64)) \<noteq> int (unat (writeIndex (initial 4 4 :: u64 WaitFreeBufferPool))) - 1"
proof -
  have v: "isPoolSizeValid 4" by (simp add: isPoolSizeValid_def)
  show ?thesis
    by (simp add: attachReader_quiescent_cases [OF v] detachReader_def initial_def)
qed

section \<open>The consumer\<close>

lemma nextReadableBuffer_assertion:
  "\<not> ndebug \<Longrightarrow> p \<noteq> bufferAt B N (readIndex s + 1) \<Longrightarrow>
   nextReadableBuffer ndebug B N s (Some p) = Inl AssertionFailed"
  by (simp add: nextReadableBuffer_def)

lemma nextReadableBuffer_None:
  "nextReadableBuffer ndebug B N s None =
     Inr (if writeIndex s > readIndex s + 1 then Some (bufferAt B N (readIndex s + 1)) else None, s)"
  by (simp add: nextReadableBuffer_def)

lemma nextReadableBuffer_Some:
  "ndebug \<or> p = bufferAt B N (readIndex s + 1) \<Longrightarrow>
   nextReadableBuffer ndebug B N s (Some p) =
     Inr (if writeIndex s > readIndex s + 1 + 1
          then Some (bufferAt B N (readIndex s + 1 + 1)) else None,
          s\<lparr>readIndex := readIndex s + 1\<rparr>)"
  by (auto simp add: nextReadableBuffer_def Let_def)

text \<open>
  C3.  With a null argument the read index stays; with a non-null one (the slot
  handed out last, or any pointer in a build without assertions) it is advanced
  by one.  The call then returns the slot of index \<open>R + 1\<close> exactly when
  \<open>W > R + 1\<close> for the indices after the call, and \<open>nullptr\<close> otherwise.  The test
  compares 64-bit values; unless \<open>R\<close> is \<open>2 ^ 64 - 1\<close> it is the comparison of the
  unbounded numbers.
\<close>

theorem nextReadableBuffer_contract:
  assumes "ndebug \<or> curReadBuf = None \<or> curReadBuf = Some (bufferAt B N (readIndex s + 1))"
  shows "\<exists>res s'. nextReadableBuffer ndebug B N s curReadBuf = Inr (res, s') \<and>
     readIndex s' = (if curReadBuf \<noteq> None then readIndex s + 1 else readIndex s) \<and>
     writeIndex s' = writeIndex s \<and> overflowCount s' = overflowCount s \<and> pool s' = pool s \<and>
     (res = Some (bufferAt B N (readIndex s' + 1)) \<longleftrightarrow> writeIndex s' > readIndex s' + 1) \<and>
     (res = None \<longleftrightarrow> \<not> writeIndex s' > readIndex s' + 1) \<and>
     (unat (readIndex s') < 2 ^ 64 - 1 \<longrightarrow>
        (writeIndex s' > readIndex s' + 1 \<longleftrightarrow> unat (writeIndex s') > unat (readIndex s') + 1))"
proof -
  have m: "w > r + 1 \<longleftrightarrow> unat w > unat r + 1" if "unat r < 2 ^ 64 - 1" for r w :: u64
    using that by (simp add: word_less_nat_alt unat_plus_if')
  show ?thesis
  proof (cases curReadBuf)
    case None
    then show ?thesis using m [of "readIndex s" "writeIndex s"]
      by (simp add: nextReadableBuffer_None)
  next
    case (Some p)
    with assms have "ndebug \<or> p = bufferAt B N (readIndex s + 1)" by simp
    from nextReadableBuffer_Some [OF this] Some m [of "readIndex s + 1" "writeIndex s"]
    show ?thesis by simp
  qed
qed

theorem nextReadableBuffer_contract_witness:
  "nextReadableBuffer False 4 4
     \<lparr>writeIndex = 3, readIndex = 0, pool = replicate 16 (0::u64), overflowCount = 0\<rparr>
     (Some (bufferAt 4 4 (0 + 1)))
   = Inr (Some 8,
     \<lparr>writeIndex = 3, readIndex = 1, pool = replicate 16 (0::u64), overflowCount = 0\<rparr>)"
proof -
  let ?s = "\<lparr>writeIndex = 3, readIndex = 0, pool = replicate 16 (0::u64), overflowCount = 0\<rparr>"
  have "False \<or> Some (bufferAt 4 4 (0 + 1)) = None
     \<or> Some (bufferAt 4 4 (0 + 1)) = Some (bufferAt 4 4 (readIndex ?s + 1))"
    by simp
  from nextReadableBuffer_contract [OF this] show ?thesis
    by (auto simp add: bufferAt_def poolSizeMask_def)
qed

section \<open>The producer with no reader attached\<close>

lemma readIndexMax_plus_poolSize: "readIndexMax N + ucast N = - 1"
  by (simp add: readIndexMax_def)

lemma unat_max_u64: "unat (- 1 :: u64) = 18446744073709551615"
  by (simp add: unsigned_minus_1_eq_mask mask_eq_exp_minus_1)

lemma nextWritableBuffer_detached:
  assumes "readIndex s = readIndexMax N"
  shows "snd (nextWritableBuffer B N s) =
     (if unat (writeIndex s) < 18446744073709551615
      then s\<lparr>writeIndex := writeIndex s + 1\<rparr>
      else s\<lparr>overflowCount := overflowCount s + 1\<rparr>)"
  using assms
  by (simp add: nextWritableBuffer_def Let_def readIndexMax_plus_poolSize
      word_less_nat_alt unat_max_u64)

lemma nextWritableBuffer_times_detached:
  assumes "readIndex s = readIndexMax N"
    and "unat (writeIndex s) + n < 18446744073709551616"
  shows "nextWritableBuffer_times B N n s = s\<lparr>writeIndex := writeIndex s + of_nat n\<rparr> \<and>
         unat (writeIndex s + of_nat n) = unat (writeIndex s) + n"
  using assms(2)
proof (induction n)
  case 0
  show ?case by simp
next
  case (Suc n)
  let ?t = "s\<lparr>writeIndex := writeIndex s + of_nat n\<rparr>"
  from Suc have t: "nextWritableBuffer_times B N n s = ?t"
    and u: "unat (writeIndex s + of_nat n) = unat (writeIndex s) + n"
    by simp_all
  have r: "readIndex ?t = readIndexMax N" using assms(1) by simp
  from Suc.prems u have lt: "unat (writeIndex ?t) < 18446744073709551615" by simp
  then have "unat (writeIndex ?t) + unat (1 :: u64) < 2 ^ 64" by simp
  then have "unat (writeIndex ?t + 1) = unat (writeIndex ?t) + unat (1 :: u64)"
    by (simp add: unat_plus_if')
  with u have s1: "unat (writeIndex ?t + 1) = unat (writeIndex s) + Suc n"
    by simp
  have e: "writeIndex s + of_nat (Suc n) = writeIndex ?t + 1"
    by (simp add: add.assoc)
  have "unat (writeIndex s + of_nat (Suc n)) = unat (writeIndex s) + Suc n"
    unfolding e by (rule s1)
  moreover have "nextWritableBuffer_times B N (Suc n) s
      = s\<lparr>writeIndex := writeIndex s + of_nat (Suc n)\<rparr>"
    unfolding e using lt by (simp add: t nextWritableBuffer_detached [OF r])
  ultimately show ?case by simp
qed

text \<open>
  C7, as the code has it.  A freshly constructed pool has \<open>W = 0\<close>, no overflow and
  \<open>R = readIndexMax = 2 ^ 64 - 1 - N\<close>.  While it stays detached, each of the first
  \<open>2 ^ 64 - 1\<close> calls of the producer advances \<open>W\<close> by one and the overflow count
  stays zero.
\<close>

theorem detached_producer_advances:
  fixes B N :: u32 and s0 :: "('a::zero) WaitFreeBufferPool"
  defines "s0 \<equiv> initial B N"
  shows "WaitFreeBufferPool_ctor True True B N = Inr s0 \<and>
   writeIndex s0 = 0 \<and> overflowCount s0 = 0 \<and>
   readIndex s0 = readIndexMax N \<and>
   unat (readIndexMax N) = 2 ^ 64 - 1 - unat N \<and>
   (\<forall>n < 2 ^ 64.
      unat (writeIndex (nextWritableBuffer_times B N n s0)) = n \<and>
      overflowCount (nextWritableBuffer_times B N n s0) = 0 \<and>
      readIndex (nextWritableBuffer_times B N n s0) = readIndexMax N) \<and>
   (\<forall>n. Suc n < 2 ^ 64 \<longrightarrow>
      writeIndex (nextWritableBuffer_times B N (Suc n) s0)
        = writeIndex (nextWritableBuffer_times B N n s0) + 1)"
proof -
  have i: "writeIndex s0 = 0" "overflowCount s0 = 0" "readIndex s0 = readIndexMax N"
    by (simp_all add: s0_def initial_def)
  have run: "nextWritableBuffer_times B N n s0 = s0\<lparr>writeIndex := of_nat n\<rparr>"
    and un: "unat (of_nat n :: u64) = n"
    if "n < 2 ^ 64" for n
    using nextWritableBuffer_times_detached [of s0 N n B] that i by simp_all
  have "unat (writeIndex (nextWritableBuffer_times B N n s0)) = n \<and>
      overflowCount (nextWritableBuffer_times B N n s0) = 0 \<and>
      readIndex (nextWritableBuffer_times B N n s0) = readIndexMax N"
    if "n < 2 ^ 64" for n
    unfolding run [OF that] using un [OF that] i by simp
  moreover have "writeIndex (nextWritableBuffer_times B N (Suc n) s0)
        = writeIndex (nextWritableBuffer_times B N n s0) + 1"
    if "Suc n < 2 ^ 64" for n
  proof -
    from that have "n < 2 ^ 64" by simp
    from run [OF this] run [OF that] show ?thesis by simp
  qed
  moreover have "WaitFreeBufferPool_ctor True True B N = Inr s0"
    by (simp add: WaitFreeBufferPool_ctor_def s0_def)
  moreover have "unat (readIndexMax N) = 2 ^ 64 - 1 - unat N"
    by (simp add: unat_readIndexMax)
  ultimately show ?thesis using i by blast
qed

theorem detached_producer_advances_witness:
  "(3 :: nat) < 2 ^ 64 \<and>
   writeIndex (nextWritableBuffer_times 4 4 3 (initial 4 4 :: u64 WaitFreeBufferPool)) = 3 \<and>
   overflowCount (nextWritableBuffer_times 4 4 3 (initial 4 4 :: u64 WaitFreeBufferPool)) = 0"
proof -
  let ?s = "nextWritableBuffer_times 4 4 3 (initial 4 4 :: u64 WaitFreeBufferPool)"
  have b: "(3 :: nat) < 2 ^ 64" by simp
  from detached_producer_advances [of 4 4, where 'a = u64]
  have "\<forall>n < 2 ^ 64.
      unat (writeIndex (nextWritableBuffer_times 4 4 n (initial 4 4 :: u64 WaitFreeBufferPool))) = n \<and>
      overflowCount (nextWritableBuffer_times 4 4 n (initial 4 4 :: u64 WaitFreeBufferPool)) = 0 \<and>
      readIndex (nextWritableBuffer_times 4 4 n (initial 4 4 :: u64 WaitFreeBufferPool)) = readIndexMax 4"
    by (elim conjE)
  with b have "unat (writeIndex ?s) = 3 \<and> overflowCount ?s = 0" by blast
  then have "unat (writeIndex ?s) = unat (3 :: u64) \<and> overflowCount ?s = 0" by simp
  with b show ?thesis by (simp only: word_unat_eq_iff)
qed

text \<open>
  The claim as the specification states it is for every finite run.  The
  \<open>2 ^ 64\<close>-th call finds \<open>W = 2 ^ 64 - 1\<close>, which is not below
  \<open>readIndexMax + N = 2 ^ 64 - 1\<close>: it leaves \<open>W\<close> and counts an overflow.
\<close>

theorem detached_producer_overflows_at_max:
  "overflowCount (nextWritableBuffer_times 4 4 18446744073709551616
      (initial 4 4 :: u64 WaitFreeBufferPool)) = 1 \<and>
   writeIndex (nextWritableBuffer_times 4 4 18446744073709551616
      (initial 4 4 :: u64 WaitFreeBufferPool))
     = writeIndex (nextWritableBuffer_times 4 4 18446744073709551615
      (initial 4 4 :: u64 WaitFreeBufferPool))"
proof -
  let ?s = "initial 4 4 :: u64 WaitFreeBufferPool"
  let ?t = "nextWritableBuffer_times 4 4 18446744073709551615 ?s"
  have t: "?t = ?s\<lparr>writeIndex := writeIndex ?s + of_nat 18446744073709551615\<rparr>"
    and u: "unat (writeIndex ?s + of_nat 18446744073709551615 :: u64)
             = unat (writeIndex ?s) + 18446744073709551615"
    using nextWritableBuffer_times_detached [of ?s 4 18446744073709551615 4]
    by (simp_all add: initial_def)
  have r: "readIndex ?t = readIndexMax 4" by (simp add: t) (simp add: initial_def)
  have w: "unat (writeIndex ?t) = 18446744073709551615"
    using u by (simp add: t) (simp add: initial_def)
  have o: "overflowCount ?t = 0" by (simp add: t) (simp add: initial_def)
  have "(18446744073709551616 :: nat) = Suc 18446744073709551615" by simp
  then have "nextWritableBuffer_times 4 4 18446744073709551616 ?s
      = snd (nextWritableBuffer 4 4 ?t)"
    by (simp only: nextWritableBuffer_times.simps)
  also have "\<dots> = ?t\<lparr>overflowCount := overflowCount ?t + 1\<rparr>"
    using w by (simp only: nextWritableBuffer_detached [OF r]) simp
  finally show ?thesis using o by simp
qed

section \<open>Invariants of legal call sequences\<close>

lemma run_append:
  "run nd B N (cs @ ds) h = (case run nd B N cs h of None \<Rightarrow> None | Some h' \<Rightarrow> run nd B N ds h')"
  by (induction cs arbitrary: h) (auto split: option.splits)

lemma unat_Suc_of_below_max:
  fixes r :: u64
  assumes "unat r < 18446744073709551615"
  shows "unat (r + 1) = unat r + 1"
  using assms by (simp add: unat_plus_if')

lemma readable_test:
  fixes r w :: u64
  assumes "unat r < 18446744073709551615"
  shows "w > r + 1 \<longleftrightarrow> unat r + 1 < unat w"
  by (simp add: word_less_nat_alt unat_Suc_of_below_max [OF assms])

lemma session_inv_fresh:
  assumes "isPoolSizeValid N"
  shows "session_inv B N (fresh B N)"
  using poolSize_pos [OF assms] unat_u32_bound [of N]
  by (simp add: session_inv_def fresh_def initial_def unat_readIndexMax)

lemma session_inv_attachReader:
  assumes N: "isPoolSizeValid N" and "step nd B N AttachReader h = Some h'"
  shows "session_inv B N h'"
proof -
  let ?w = "writeIndex (thePool h)"
  from assms(2) obtain rw s' where a: "attachReader N (thePool h) = Some (rw, s')"
    and h': "h' = \<lparr> thePool = s', attached = True, lastReadBuf = None \<rparr>"
    by (auto split: option.splits)
  from attachReader_Some [OF a]
  have s': "s' = (thePool h)\<lparr>readIndex := proposedReadIndex ?w\<rparr>" by simp
  have "unat ?w < 18446744073709551616" by (rule unat_u64_bound)
  moreover have "1 < unat N" by (rule poolSize_pos [OF N])
  ultimately have "unat ?w \<le> unat ?w - 1 + unat N \<and> unat ?w - 1 < 18446744073709551615"
    by arith
  then show ?thesis
    by (simp add: session_inv_def h' s' unat_proposedReadIndex Let_def)
qed

lemma session_inv_detachReader:
  assumes N: "isPoolSizeValid N" and "step nd B N DetachReader h = Some h'"
  shows "session_inv B N h'"
proof -
  from assms(2) have h': "h' = \<lparr> thePool = (thePool h)\<lparr>readIndex := readIndexMax N\<rparr>,
      attached = False, lastReadBuf = None \<rparr>"
    by (auto simp add: detachReader_def)
  have "unat (writeIndex (thePool h)) < 18446744073709551616" by (rule unat_u64_bound)
  moreover have "1 < unat N" by (rule poolSize_pos [OF N])
  moreover have "unat N < 4294967296" by (rule unat_u32_bound)
  ultimately have "18446744073709551615 - unat N < (18446744073709551615 :: nat) \<and>
      unat (writeIndex (thePool h)) \<le> 18446744073709551615 - unat N + unat N"
    by arith
  then show ?thesis
    by (simp add: session_inv_def h' unat_readIndexMax Let_def)
qed

lemma session_inv_nextWritableBuffer:
  assumes "session_inv B N h" and "step nd B N NextWritableBuffer h = Some h'"
  shows "session_inv B N h'"
proof -
  let ?s = "thePool h"
  from assms(2) have h': "h' = h\<lparr>thePool := snd (nextWritableBuffer B N ?s)\<rparr>" by simp
  show ?thesis
  proof (cases "writeIndex ?s < readIndex ?s + ucast N")
    case True
    then have s: "snd (nextWritableBuffer B N ?s) = ?s\<lparr>writeIndex := writeIndex ?s + 1\<rparr>"
      by (simp add: nextWritableBuffer_def Let_def)
    from True have u: "unat (writeIndex ?s + 1) = unat (writeIndex ?s) + 1"
      by (rule unat_Suc_of_less)
    from True have "unat (writeIndex ?s) < unat (readIndex ?s + ucast N)"
      by (simp add: word_less_nat_alt)
    with unat_add_poolSize_le [of "readIndex ?s" N]
    have "unat (writeIndex ?s) < unat (readIndex ?s) + unat N" by simp
    with assms(1) show ?thesis
      by (auto simp add: session_inv_def h' s u Let_def split: option.splits)
  next
    case False
    then have "snd (nextWritableBuffer B N ?s) = ?s\<lparr>overflowCount := overflowCount ?s + 1\<rparr>"
      by (simp add: nextWritableBuffer_def Let_def)
    with assms(1) show ?thesis
      by (auto simp add: session_inv_def h' Let_def split: option.splits)
  qed
qed

lemma session_inv_nextReadableBuffer:
  assumes "session_inv B N h" and "step nd B N (NextReadableBuffer cur) h = Some h'"
  shows "session_inv B N h'"
proof -
  let ?s = "thePool h"
  from assms(2) have cur: "cur = None \<or> cur = lastReadBuf h"
    by (auto split: if_splits)
  from assms(1) have R: "unat (readIndex ?s) < 18446744073709551615"
    and RW: "attached h \<longrightarrow> unat (readIndex ?s) \<le> unat (writeIndex ?s)"
    and WR: "unat (writeIndex ?s) \<le> unat (readIndex ?s) + unat N"
    by (simp_all add: session_inv_def Let_def)
  show ?thesis
  proof (cases cur)
    case None
    with assms(2) have h': "h' = h\<lparr>thePool := ?s, lastReadBuf :=
       (if writeIndex ?s > readIndex ?s + 1 then Some (bufferAt B N (readIndex ?s + 1)) else None)\<rparr>"
      by (simp add: nextReadableBuffer_None)
    from R RW WR show ?thesis
      by (simp add: session_inv_def h' Let_def readable_test [OF R])
  next
    case (Some p)
    with cur have l: "lastReadBuf h = Some p" by simp
    with assms(1) have p: "p = bufferAt B N (readIndex ?s + 1)"
      and lt: "unat (readIndex ?s) + 1 < unat (writeIndex ?s)"
      by (simp_all add: session_inv_def Let_def)
    from p have "nd \<or> p = bufferAt B N (readIndex ?s + 1)" by simp
    note nr = nextReadableBuffer_Some [OF this]
    from assms(2) l Some have h': "h' = h\<lparr>thePool := ?s\<lparr>readIndex := readIndex ?s + 1\<rparr>,
       lastReadBuf := (if writeIndex ?s > readIndex ?s + 1 + 1
          then Some (bufferAt B N (readIndex ?s + 1 + 1)) else None)\<rparr>"
      by (simp add: nr)
    have u: "unat (readIndex ?s + 1) = unat (readIndex ?s) + 1"
      by (rule unat_Suc_of_below_max [OF R])
    have "unat (writeIndex ?s) < 18446744073709551616" by (rule unat_u64_bound)
    with lt u have R': "unat (readIndex ?s + 1) < 18446744073709551615" by simp
    from lt WR R' u readable_test [OF R', of "writeIndex ?s"] show ?thesis
      by (simp add: session_inv_def h' Let_def)
  qed
qed

lemma session_inv_step:
  assumes "isPoolSizeValid N" and "session_inv B N h" and "step nd B N c h = Some h'"
  shows "session_inv B N h'"
proof (cases c)
  case AttachReader
  with assms show ?thesis by (simp only: session_inv_attachReader)
next
  case DetachReader
  with assms show ?thesis by (simp only: session_inv_detachReader)
next
  case NextWritableBuffer
  with assms show ?thesis by (simp only: session_inv_nextWritableBuffer)
next
  case (NextReadableBuffer cur)
  with assms show ?thesis by (simp only: session_inv_nextReadableBuffer)
qed

lemma session_inv_run:
  assumes "isPoolSizeValid N" and "session_inv B N h" and "run nd B N cs h = Some h'"
  shows "session_inv B N h'"
  using assms(2,3)
proof (induction cs arbitrary: h)
  case Nil
  then show ?case by simp
next
  case (Cons c cs)
  from Cons.prems(2) obtain h1 where s: "step nd B N c h = Some h1"
    and r: "run nd B N cs h1 = Some h'"
    by (auto split: option.splits)
  from session_inv_step [OF assms(1) Cons.prems(1) s] have "session_inv B N h1" .
  from Cons.IH [OF this r] show ?case .
qed

lemma session_inv_reachable:
  assumes "isPoolSizeValid N" and "run nd B N cs (fresh B N) = Some h"
  shows "session_inv B N h"
  using session_inv_run [OF assms(1) session_inv_fresh [OF assms(1)] assms(2)] .

text \<open>What the invariant of a session says about the two indices.\<close>

lemma session_inv_indices:
  assumes "session_inv B N h"
  shows "(attached h \<longrightarrow> unat (readIndex (thePool h)) \<le> unat (writeIndex (thePool h))) \<and>
    int (unat (writeIndex (thePool h))) - int (unat (readIndex (thePool h))) \<le> int (unat N)"
proof -
  from assms have "attached h \<longrightarrow> unat (readIndex (thePool h)) \<le> unat (writeIndex (thePool h))"
    and "unat (writeIndex (thePool h)) \<le> unat (readIndex (thePool h)) + unat N"
    by (simp_all add: session_inv_def Let_def)
  then show ?thesis by linarith
qed

lemma nextWritableBuffer_full:
  assumes "unat (writeIndex s) = unat (readIndex s) + unat N"
  shows "nextWritableBuffer B N s
     = (bufferAt B N (writeIndex s), s\<lparr>overflowCount := overflowCount s + 1\<rparr>)"
proof -
  have "unat (writeIndex s) < 18446744073709551616" by (rule unat_u64_bound)
  with assms have "unat (readIndex s) + unat (ucast N :: u64) < 2 ^ 64"
    by (simp add: unat_ucast_u32)
  then have "unat (readIndex s + ucast N) = unat (readIndex s) + unat N"
    by (simp add: unat_plus_if' unat_ucast_u32)
  with assms have "\<not> writeIndex s < readIndex s + ucast N"
    by (simp add: word_less_nat_alt)
  then show ?thesis by (simp add: nextWritableBuffer_def Let_def)
qed

text \<open>
  C4.  After every legal call sequence on a freshly constructed pool the read
  index is at most the write index while a reader is attached, and \<open>W - R \<le> N\<close>
  holds in every state; when \<open>W - R = N\<close> the pool is full: the producer gets the
  slot of the unchanged \<open>W\<close> and an overflow is counted.  Every further legal call
  leads to a state with these properties again.
\<close>

theorem legal_sequences_keep_indices_in_window:
  assumes "isPoolSizeValid N" and "run ndebug B N cs (fresh B N) = Some h"
  shows "(attached h \<longrightarrow> unat (readIndex (thePool h)) \<le> unat (writeIndex (thePool h))) \<and>
    int (unat (writeIndex (thePool h))) - int (unat (readIndex (thePool h))) \<le> int (unat N) \<and>
    (unat (writeIndex (thePool h)) = unat (readIndex (thePool h)) + unat N \<longrightarrow>
       nextWritableBuffer B N (thePool h)
         = (bufferAt B N (writeIndex (thePool h)),
            (thePool h)\<lparr>overflowCount := overflowCount (thePool h) + 1\<rparr>)) \<and>
    (\<forall>c h'. step ndebug B N c h = Some h' \<longrightarrow>
       (attached h' \<longrightarrow> unat (readIndex (thePool h')) \<le> unat (writeIndex (thePool h'))) \<and>
       int (unat (writeIndex (thePool h'))) - int (unat (readIndex (thePool h'))) \<le> int (unat N))"
proof -
  have inv: "session_inv B N h" by (rule session_inv_reachable [OF assms])
  have "(attached h' \<longrightarrow> unat (readIndex (thePool h')) \<le> unat (writeIndex (thePool h'))) \<and>
       int (unat (writeIndex (thePool h'))) - int (unat (readIndex (thePool h'))) \<le> int (unat N)"
    if "step ndebug B N c h = Some h'" for c h'
    by (rule session_inv_indices [OF session_inv_step [OF assms(1) inv that]])
  with session_inv_indices [OF inv] nextWritableBuffer_full [of "thePool h" N B]
  show ?thesis by blast
qed

theorem legal_sequences_keep_indices_in_window_witness:
  "isPoolSizeValid 4 \<and>
   run False 4 4
     [AttachReader, NextWritableBuffer, NextWritableBuffer, NextReadableBuffer None,
      NextWritableBuffer, NextWritableBuffer, NextWritableBuffer]
     (fresh 4 4 :: u64 session)
   = Some \<lparr> thePool = \<lparr>writeIndex = 4, readIndex = 0, pool = replicate 16 0,
                         overflowCount = 1\<rparr>,
            attached = True, lastReadBuf = Some 4 \<rparr> \<and>
   nextWritableBuffer 4 4
     \<lparr>writeIndex = 4, readIndex = 0, pool = replicate 16 (0 :: u64), overflowCount = 1\<rparr>
   = (0, \<lparr>writeIndex = 4, readIndex = 0, pool = replicate 16 0, overflowCount = 2\<rparr>)"
proof -
  have v: "isPoolSizeValid 4" by (simp add: isPoolSizeValid_def)
  have r: "run False 4 4
     [AttachReader, NextWritableBuffer, NextWritableBuffer, NextReadableBuffer None,
      NextWritableBuffer, NextWritableBuffer, NextWritableBuffer]
     (fresh 4 4 :: u64 session)
   = Some \<lparr> thePool = \<lparr>writeIndex = 4, readIndex = 0, pool = replicate 16 0,
                         overflowCount = 1\<rparr>,
            attached = True, lastReadBuf = Some 4 \<rparr>"
    by (simp add: fresh_def initial_def attachReader_quiescent_cases [OF v]
        nextWritableBuffer_def nextReadableBuffer_def bufferAt_def poolSizeMask_def
        readIndexMax_def)
  from legal_sequences_keep_indices_in_window [OF v r] v r show ?thesis
    by (simp add: bufferAt_def poolSizeMask_def)
qed

section \<open>What the consumer is handed\<close>

lemma mod_neq_of_close:
  fixes a b n :: nat
  assumes "a < b" and "b - a < n"
  shows "a mod n \<noteq> b mod n"
proof
  assume "a mod n = b mod n"
  with assms(1) have "n dvd b - a"
    by (simp add: mod_eq_dvd_iff_nat [symmetric])
  moreover from assms(1) have "0 < b - a" by simp
  ultimately have "n \<le> b - a" by (rule dvd_imp_le)
  with assms(2) show False by simp
qed

lemma bufferAt_periodic:
  assumes "isPoolSizeValid N"
  shows "bufferAt B N (i + ucast N) = bufferAt B N i"
proof -
  from poolSize_is_power [OF assms] obtain k where k: "k < 32" "unat N = 2 ^ k" by blast
  then have "k \<le> 64" by simp
  then have d: "(2 :: nat) ^ k dvd 2 ^ 64" by (rule le_imp_power_dvd)
  have "unat (i + ucast N) = (unat i + unat N) mod 2 ^ 64"
    by (simp add: unat_word_ariths unat_ucast_u32)
  then have "unat (i + ucast N) mod unat N = (unat i + 2 ^ k) mod 2 ^ 64 mod 2 ^ k"
    by (simp add: k)
  also have "\<dots> = (unat i + 2 ^ k) mod 2 ^ k" using d by (rule mod_mod_cancel)
  also have "\<dots> = unat i mod unat N" by (simp add: k)
  finally have "unat (bufferAt B N (i + ucast N)) = unat (bufferAt B N i)"
    by (simp only: unat_bufferAt [OF assms])
  then show ?thesis by (simp only: word_unat_eq_iff)
qed

text \<open>
  C10, as the code has it.  In a state reached by a legal call sequence, a legal
  call of \<open>nextReadableBuffer\<close> that returns a buffer returns the slot of the index
  \<open>i = R + 1\<close> for the read index \<open>R\<close> after the call.  The index lies strictly
  between \<open>R\<close> (before and after the call) and \<open>W\<close>, so it is at least \<open>1\<close> and never
  the index \<open>0\<close>; and its slot is not the slot of the current \<open>W\<close>, which the producer
  is writing.  The slots are reused: the slot of an index is also the slot of that
  index plus \<open>poolSize\<close>, so the slot of index \<open>0\<close> is the slot of index
  \<open>poolSize\<close>.
\<close>

theorem nextReadableBuffer_never_returns_write_slot:
  assumes "isPoolSizeValid N" and "run ndebug B N cs (fresh B N) = Some h"
    and "curReadBuf = None \<or> curReadBuf = lastReadBuf h"
    and "nextReadableBuffer ndebug B N (thePool h) curReadBuf = Inr (Some p, s')"
  shows "p = bufferAt B N (readIndex s' + 1) \<and>
    unat (readIndex s' + 1) = unat (readIndex s') + 1 \<and>
    unat (readIndex (thePool h)) < unat (readIndex s' + 1) \<and>
    unat (readIndex s') < unat (readIndex s' + 1) \<and>
    unat (readIndex s' + 1) < unat (writeIndex s') \<and>
    writeIndex s' = writeIndex (thePool h) \<and>
    1 \<le> unat (readIndex s' + 1) \<and> readIndex s' + 1 \<noteq> 0 \<and>
    unat (readIndex s' + 1) mod unat N \<noteq> unat (writeIndex s') mod unat N \<and>
    (B \<noteq> 0 \<longrightarrow> p \<noteq> bufferAt B N (writeIndex s')) \<and>
    bufferAt B N (0 + ucast N) = bufferAt B N 0 \<and>
    bufferAt B N (readIndex s' + 1 + ucast N) = p"
proof -
  let ?h' = "h\<lparr>thePool := s', lastReadBuf := Some p\<rparr>"
  have inv: "session_inv B N h" by (rule session_inv_reachable [OF assms(1,2)])
  from assms(3,4) have st: "step ndebug B N (NextReadableBuffer curReadBuf) h = Some ?h'"
    by auto
  from session_inv_nextReadableBuffer [OF inv st]
  have p: "p = bufferAt B N (readIndex s' + 1)"
    and lt: "unat (readIndex s') + 1 < unat (writeIndex s')"
    and R': "unat (readIndex s') < 18446744073709551615"
    and WR: "unat (writeIndex s') \<le> unat (readIndex s') + unat N"
    by (simp_all add: session_inv_def Let_def)
  have u: "unat (readIndex s' + 1) = unat (readIndex s') + 1"
    by (rule unat_Suc_of_below_max [OF R'])
  from inv have R: "unat (readIndex (thePool h)) < 18446744073709551615"
    by (simp add: session_inv_def Let_def)
  have pre: "unat (readIndex (thePool h)) \<le> unat (readIndex s') \<and>
      writeIndex s' = writeIndex (thePool h)"
  proof (cases curReadBuf)
    case None
    with assms(4) show ?thesis by (auto simp add: nextReadableBuffer_None split: if_splits)
  next
    case (Some q)
    with assms(4) have "readIndex s' = readIndex (thePool h) + 1 \<and>
        writeIndex s' = writeIndex (thePool h)"
      by (auto simp add: nextReadableBuffer_def Let_def split: if_splits)
    with unat_Suc_of_below_max [OF R] show ?thesis by simp
  qed
  from lt WR have "unat (writeIndex s') - unat (readIndex s' + 1) < unat N"
    unfolding u by simp
  with lt have ne: "unat (readIndex s' + 1) mod unat N \<noteq> unat (writeIndex s') mod unat N"
    unfolding u [symmetric] by (intro mod_neq_of_close) simp_all
  have "p \<noteq> bufferAt B N (writeIndex s')" if "B \<noteq> 0"
  proof
    assume "p = bufferAt B N (writeIndex s')"
    then have "unat (bufferAt B N (readIndex s' + 1)) = unat (bufferAt B N (writeIndex s'))"
      using p by simp
    then have "(unat (readIndex s' + 1) mod unat N) * unat B
        = (unat (writeIndex s') mod unat N) * unat B"
      by (simp only: unat_bufferAt [OF assms(1)])
    moreover from that have "0 < unat B" by (simp add: unat_gt_0)
    ultimately show False using ne by simp
  qed
  moreover have "readIndex s' + 1 \<noteq> 0"
  proof
    assume "readIndex s' + 1 = 0"
    then have "unat (readIndex s' + 1) = 0" by simp
    with u show False by simp
  qed
  moreover have "bufferAt B N (0 + ucast N) = bufferAt B N 0"
    by (rule bufferAt_periodic [OF assms(1)])
  moreover have "bufferAt B N (readIndex s' + 1 + ucast N) = p"
    unfolding p by (rule bufferAt_periodic [OF assms(1)])
  ultimately show ?thesis using p u pre lt ne by simp
qed

theorem nextReadableBuffer_never_returns_write_slot_witness:
  "isPoolSizeValid 4 \<and>
   run False 4 4 [AttachReader, NextWritableBuffer, NextWritableBuffer]
     (fresh 4 4 :: u64 session)
   = Some \<lparr> thePool = \<lparr>writeIndex = 2, readIndex = 0, pool = replicate 16 0,
                         overflowCount = 0\<rparr>,
            attached = True, lastReadBuf = None \<rparr> \<and>
   nextReadableBuffer False 4 4
     \<lparr>writeIndex = 2, readIndex = 0, pool = replicate 16 (0 :: u64), overflowCount = 0\<rparr> None
   = Inr (Some 4,
       \<lparr>writeIndex = 2, readIndex = 0, pool = replicate 16 0, overflowCount = 0\<rparr>) \<and>
   (4 :: u64) = bufferAt 4 4 (0 + 1) \<and> (4 :: u64) \<noteq> bufferAt 4 4 2"
proof -
  let ?s = "\<lparr>writeIndex = 2, readIndex = 0, pool = replicate 16 (0 :: u64), overflowCount = 0\<rparr>"
  let ?h = "\<lparr> thePool = ?s, attached = True, lastReadBuf = None \<rparr>"
  have v: "isPoolSizeValid 4" by (simp add: isPoolSizeValid_def)
  have r: "run False 4 4 [AttachReader, NextWritableBuffer, NextWritableBuffer]
     (fresh 4 4 :: u64 session) = Some ?h"
    by (simp add: fresh_def initial_def attachReader_quiescent_cases [OF v]
        nextWritableBuffer_def readIndexMax_def)
  have c: "None = None \<or> None = lastReadBuf ?h" by simp
  have n: "nextReadableBuffer False 4 4 (thePool ?h) None = Inr (Some 4, ?s)"
    by (simp add: nextReadableBuffer_def bufferAt_def poolSizeMask_def)
  from nextReadableBuffer_never_returns_write_slot [OF v r c n] v r n
  show ?thesis by simp
qed

text \<open>
  The claim as the specification states it has the slot of the index \<open>0\<close> never
  returned.  After the reader has attached, four writes, a drain and one more write,
  \<open>nextReadableBuffer\<close> returns the slot of the index \<open>4\<close>, which is the slot at
  offset \<open>0\<close>, the slot of the index \<open>0\<close>.
\<close>

theorem slot_of_index_zero_is_returned:
  fixes s :: "u64 WaitFreeBufferPool"
  defines "s \<equiv> \<lparr>writeIndex = 5, readIndex = 3, pool = replicate 16 0, overflowCount = 0\<rparr>"
  shows "run False 4 4
     [AttachReader, NextWritableBuffer, NextWritableBuffer, NextWritableBuffer,
      NextWritableBuffer, NextReadableBuffer None, NextReadableBuffer (Some 4),
      NextReadableBuffer (Some 8), NextReadableBuffer (Some 12), NextWritableBuffer]
     (fresh 4 4)
   = Some \<lparr> thePool = s, attached = True, lastReadBuf = None \<rparr> \<and>
   nextReadableBuffer False 4 4 s None = Inr (Some 0, s) \<and>
   bufferAt 4 4 0 = 0"
  by (simp add: s_def fresh_def initial_def attachReader_quiescent_cases [OF isPoolSizeValid_4]
      nextWritableBuffer_def nextReadableBuffer_def bufferAt_def poolSizeMask_def
      readIndexMax_def)

section \<open>The overflow count\<close>

lemma step_overflowCount:
  assumes "step nd B N c h = Some h'"
  shows "overflowCount (thePool h') = overflowCount (thePool h) \<or>
     (c = NextWritableBuffer \<and>
      \<not> writeIndex (thePool h) < readIndex (thePool h) + ucast N \<and>
      overflowCount (thePool h') = overflowCount (thePool h) + 1)"
proof (cases c)
  case AttachReader
  with assms obtain rw s' where a: "attachReader N (thePool h) = Some (rw, s')"
    and h': "h' = \<lparr> thePool = s', attached = True, lastReadBuf = None \<rparr>"
    by (auto split: option.splits)
  from attachReader_Some [OF a] h' show ?thesis by simp
next
  case DetachReader
  with assms show ?thesis by (auto simp add: detachReader_def split: if_splits)
next
  case NextWritableBuffer
  with assms show ?thesis by (auto simp add: nextWritableBuffer_def Let_def)
next
  case (NextReadableBuffer cur)
  with assms show ?thesis
    by (auto simp add: nextReadableBuffer_def Let_def split: if_splits)
qed

lemma unat_Suc_of_below_max_le:
  fixes x :: u64
  assumes "unat x < 18446744073709551615"
  shows "unat x \<le> unat (x + 1)"
  using unat_Suc_of_below_max [OF assms] by simp

text \<open>
  C2, as the code has it.  When the admission test fails, \<open>nextWritableBuffer\<close>
  changes nothing but the overflow count, which it increments (modulo
  \<open>2 ^ 64\<close>), and returns the slot of the unchanged \<open>W\<close>.  No other call changes the
  overflow count, so it does not decrease while it is below \<open>2 ^ 64 - 1\<close>.  When
  \<open>R \<le> readIndexMax\<close>, so that \<open>R + N\<close> does not wrap, and \<open>R \<le> W \<le> R + N\<close>,
  the test fails only for \<open>W - R = N\<close>.
\<close>

theorem overflow_counted_when_admission_fails:
  "(\<not> writeIndex s < readIndex s + ucast N \<longrightarrow>
      nextWritableBuffer B N s
        = (bufferAt B N (writeIndex s), s\<lparr>overflowCount := overflowCount s + 1\<rparr>)) \<and>
   (\<forall>c h'. step ndebug B N c h = Some h' \<longrightarrow>
      overflowCount (thePool h') = overflowCount (thePool h) \<or>
      (c = NextWritableBuffer \<and>
       \<not> writeIndex (thePool h) < readIndex (thePool h) + ucast N \<and>
       overflowCount (thePool h') = overflowCount (thePool h) + 1)) \<and>
   (\<forall>c h'. step ndebug B N c h = Some h' \<and> unat (overflowCount (thePool h)) < 2 ^ 64 - 1 \<longrightarrow>
      unat (overflowCount (thePool h)) \<le> unat (overflowCount (thePool h'))) \<and>
   (readIndex s \<le> readIndexMax N \<and> unat (readIndex s) \<le> unat (writeIndex s) \<and>
    unat (writeIndex s) \<le> unat (readIndex s) + unat N \<and>
    \<not> writeIndex s < readIndex s + ucast N \<longrightarrow>
      unat (writeIndex s) - unat (readIndex s) = unat N)"
proof (intro conjI allI impI)
  assume "\<not> writeIndex s < readIndex s + ucast N"
  then show "nextWritableBuffer B N s
        = (bufferAt B N (writeIndex s), s\<lparr>overflowCount := overflowCount s + 1\<rparr>)"
    by (simp add: nextWritableBuffer_def Let_def)
next
  fix c h'
  assume "step ndebug B N c h = Some h'"
  then show "overflowCount (thePool h') = overflowCount (thePool h) \<or>
      (c = NextWritableBuffer \<and>
       \<not> writeIndex (thePool h) < readIndex (thePool h) + ucast N \<and>
       overflowCount (thePool h') = overflowCount (thePool h) + 1)"
    by (rule step_overflowCount)
next
  fix c h'
  assume a: "step ndebug B N c h = Some h' \<and> unat (overflowCount (thePool h)) < 2 ^ 64 - 1"
  then have "unat (overflowCount (thePool h)) < 18446744073709551615" by simp
  from unat_Suc_of_below_max_le [OF this] step_overflowCount [of ndebug B N c h h'] a
  show "unat (overflowCount (thePool h)) \<le> unat (overflowCount (thePool h'))"
    by auto
next
  assume a: "readIndex s \<le> readIndexMax N \<and> unat (readIndex s) \<le> unat (writeIndex s) \<and>
    unat (writeIndex s) \<le> unat (readIndex s) + unat N \<and>
    \<not> writeIndex s < readIndex s + ucast N"
  then have "\<not> unat (writeIndex s) < unat (readIndex s) + unat N"
    using admission_test_no_wrap [of "readIndex s" N "writeIndex s"] by blast
  with a show "unat (writeIndex s) - unat (readIndex s) = unat N" by simp
qed

theorem overflow_counted_when_admission_fails_witness:
  "\<not> (4 :: u64) < 0 + ucast (4 :: u32) \<and>
   (0 :: u64) \<le> readIndexMax 4 \<and>
   nextWritableBuffer 4 4
     \<lparr>writeIndex = 4, readIndex = 0, pool = replicate 16 (0 :: u64), overflowCount = 0\<rparr>
   = (0, \<lparr>writeIndex = 4, readIndex = 0, pool = replicate 16 0, overflowCount = 1\<rparr>) \<and>
   step False 4 4 NextWritableBuffer
     \<lparr> thePool = \<lparr>writeIndex = 4, readIndex = 0, pool = replicate 16 (0 :: u64),
                   overflowCount = 0\<rparr>, attached = True, lastReadBuf = None \<rparr>
   = Some \<lparr> thePool = \<lparr>writeIndex = 4, readIndex = 0, pool = replicate 16 0,
                   overflowCount = 1\<rparr>, attached = True, lastReadBuf = None \<rparr> \<and>
   unat (4 :: u64) - unat (0 :: u64) = unat (4 :: u32)"
proof -
  let ?s = "\<lparr>writeIndex = 4, readIndex = 0, pool = replicate 16 (0 :: u64), overflowCount = 0\<rparr>"
  let ?h = "\<lparr> thePool = ?s, attached = True, lastReadBuf = None \<rparr>"
  have t: "\<not> writeIndex ?s < readIndex ?s + ucast (4 :: u32)" by simp
  have m: "readIndex ?s \<le> readIndexMax 4" by (simp add: readIndexMax_def)
  note inst = overflow_counted_when_admission_fails [of ?s 4 4 False ?h]
  from inst t have "nextWritableBuffer 4 4 ?s
      = (bufferAt 4 4 (writeIndex ?s), ?s\<lparr>overflowCount := overflowCount ?s + 1\<rparr>)"
    by blast
  with t m show ?thesis
    by (simp add: bufferAt_def poolSizeMask_def)
qed

lemma run_snoc:
  "run nd B N (cs @ [c]) h = (case run nd B N cs h of None \<Rightarrow> None | Some h' \<Rightarrow> step nd B N c h')"
  by (simp add: run_append split: option.splits)

lemma run_replicate_NextWritableBuffer:
  "run nd B N (replicate n NextWritableBuffer) h
     = Some (h\<lparr>thePool := nextWritableBuffer_times B N n (thePool h)\<rparr>)"
proof (induction n)
  case 0
  show ?case by simp
next
  case (Suc n)
  have "replicate (Suc n) NextWritableBuffer = replicate n NextWritableBuffer @ [NextWritableBuffer]"
    by (simp add: replicate_append_same)
  then show ?case by (simp only: run_snoc Suc) simp
qed

text \<open>
  The claim as the specification states it has the overflow count incremented only
  when \<open>W - R = N\<close>.  A legal call sequence with \<open>2 ^ 64 - 4\<close> writes before the
  reader attaches leads to \<open>W = 2 ^ 64 - 1\<close> and \<open>R = 2 ^ 64 - 4\<close>: the indices
  satisfy \<open>R \<le> W\<close> and \<open>W - R = 3 < N\<close>, but \<open>R + N\<close> wraps to \<open>0\<close>, the admission
  test fails and an overflow is counted.  And on a full pool whose overflow count
  is \<open>2 ^ 64 - 1\<close> the count goes back to \<open>0\<close>.
\<close>

theorem overflow_counted_when_read_index_near_wrap:
  "run False 4 4
     (replicate 18446744073709551612 NextWritableBuffer @
      [AttachReader, NextWritableBuffer, NextWritableBuffer, NextWritableBuffer,
       NextReadableBuffer None, NextReadableBuffer (Some 0)])
     (fresh 4 4 :: u64 session)
   = Some \<lparr> thePool = \<lparr>writeIndex = - 1, readIndex = - 4, pool = replicate 16 0,
                         overflowCount = 0\<rparr>,
            attached = True, lastReadBuf = Some 4 \<rparr> \<and>
   unat (- 4 :: u64) \<le> unat (- 1 :: u64) \<and>
   unat (- 1 :: u64) - unat (- 4 :: u64) = 3 \<and> unat (4 :: u32) = 4 \<and>
   nextWritableBuffer 4 4
     \<lparr>writeIndex = - 1, readIndex = - 4, pool = replicate 16 (0 :: u64), overflowCount = 0\<rparr>
   = (12, \<lparr>writeIndex = - 1, readIndex = - 4, pool = replicate 16 0, overflowCount = 1\<rparr>) \<and>
   nextWritableBuffer 4 4
     \<lparr>writeIndex = 4, readIndex = 0, pool = replicate 16 (0 :: u64), overflowCount = - 1\<rparr>
   = (0, \<lparr>writeIndex = 4, readIndex = 0, pool = replicate 16 0, overflowCount = 0\<rparr>)"
proof -
  let ?f = "fresh 4 4 :: u64 session"
  let ?a = "\<lparr> thePool = \<lparr>writeIndex = - 4, readIndex = readIndexMax 4,
                 pool = replicate 16 (0 :: u64), overflowCount = 0\<rparr>,
               attached = False, lastReadBuf = None \<rparr>"
  let ?b = "\<lparr> thePool = \<lparr>writeIndex = - 1, readIndex = - 4, pool = replicate 16 (0 :: u64),
                         overflowCount = 0\<rparr>,
            attached = True, lastReadBuf = Some 4 \<rparr>"
  have v: "isPoolSizeValid 4" by (simp add: isPoolSizeValid_def)
  have m1: "unat (- 1 :: u64) = 18446744073709551615" by (rule unat_max_u64)
  have "(- 4 :: u64) = - 1 - 3" by simp
  moreover have "(3 :: u64) \<le> - 1" by simp
  ultimately have m4: "unat (- 4 :: u64) = 18446744073709551612"
    using unat_sub [of "3 :: u64" "- 1"] m1 by simp
  have "nextWritableBuffer_times 4 4 18446744073709551612 (thePool ?f)
      = (thePool ?f)\<lparr>writeIndex := writeIndex (thePool ?f) + of_nat 18446744073709551612\<rparr>"
    using nextWritableBuffer_times_detached [of "thePool ?f" 4 18446744073709551612 4]
    by (simp add: fresh_def initial_def)
  moreover have "(of_nat 18446744073709551612 :: u64) = - 4"
    using m4 by (simp add: word_unat_eq_iff)
  ultimately have "run False 4 4 (replicate 18446744073709551612 NextWritableBuffer) ?f = Some ?a"
    by (simp add: run_replicate_NextWritableBuffer fresh_def initial_def)
  moreover have "run False 4 4
      [AttachReader, NextWritableBuffer, NextWritableBuffer, NextWritableBuffer,
       NextReadableBuffer None, NextReadableBuffer (Some 0)] ?a = Some ?b"
    using m1 m4
    by (simp add: attachReader_quiescent_cases [OF v] nextWritableBuffer_def
        nextReadableBuffer_def bufferAt_def poolSizeMask_def readIndexMax_def)
  ultimately have "run False 4 4
     (replicate 18446744073709551612 NextWritableBuffer @
      [AttachReader, NextWritableBuffer, NextWritableBuffer, NextWritableBuffer,
       NextReadableBuffer None, NextReadableBuffer (Some 0)]) ?f = Some ?b"
    by (simp only: run_append option.case)
  moreover have "nextWritableBuffer 4 4
     \<lparr>writeIndex = - 1, readIndex = - 4, pool = replicate 16 (0 :: u64), overflowCount = 0\<rparr>
   = (12, \<lparr>writeIndex = - 1, readIndex = - 4, pool = replicate 16 0, overflowCount = 1\<rparr>)"
    by (simp add: nextWritableBuffer_def bufferAt_def poolSizeMask_def)
  moreover have "nextWritableBuffer 4 4
     \<lparr>writeIndex = 4, readIndex = 0, pool = replicate 16 (0 :: u64), overflowCount = - 1\<rparr>
   = (0, \<lparr>writeIndex = 4, readIndex = 0, pool = replicate 16 0, overflowCount = 0\<rparr>)"
    by (simp add: nextWritableBuffer_def bufferAt_def poolSizeMask_def)
  ultimately show ?thesis using m1 m4 by simp
qed

section \<open>The tests of the producer and of the attach loop where the sum wraps\<close>

lemma unat_minus_4: "unat (- 4 :: u64) = 18446744073709551612"
proof -
  have "(- 4 :: u64) = - 1 - 3" by simp
  moreover have "(3 :: u64) \<le> - 1" by simp
  ultimately show ?thesis
    using unat_sub [of "3 :: u64" "- 1"] unat_max_u64 by simp
qed

lemma run_detached_writes:
  assumes "n < 18446744073709551616"
  shows "run False 4 4 (replicate n NextWritableBuffer) (fresh 4 4 :: u64 session)
    = Some \<lparr> thePool = \<lparr>writeIndex = of_nat n, readIndex = readIndexMax 4,
                 pool = replicate 16 0, overflowCount = 0\<rparr>,
             attached = False, lastReadBuf = None \<rparr>"
proof -
  let ?f = "fresh 4 4 :: u64 session"
  have "nextWritableBuffer_times 4 4 n (thePool ?f)
      = (thePool ?f)\<lparr>writeIndex := writeIndex (thePool ?f) + of_nat n\<rparr>"
    using nextWritableBuffer_times_detached [of "thePool ?f" 4 n 4] assms
    by (simp add: fresh_def initial_def)
  then show ?thesis
    by (simp add: run_replicate_NextWritableBuffer fresh_def initial_def)
qed

lemma run_reaches_read_index_near_wrap:
  "run False 4 4
     (replicate 18446744073709551612 NextWritableBuffer @
      [AttachReader, NextWritableBuffer, NextWritableBuffer, NextWritableBuffer,
       NextReadableBuffer None, NextReadableBuffer (Some 0)])
     (fresh 4 4 :: u64 session)
   = Some \<lparr> thePool = \<lparr>writeIndex = - 1, readIndex = - 4, pool = replicate 16 0,
                         overflowCount = 0\<rparr>,
            attached = True, lastReadBuf = Some 4 \<rparr>"
proof -
  let ?a = "\<lparr> thePool = \<lparr>writeIndex = - 4, readIndex = readIndexMax 4,
                 pool = replicate 16 (0 :: u64), overflowCount = 0\<rparr>,
               attached = False, lastReadBuf = None \<rparr>"
  let ?b = "\<lparr> thePool = \<lparr>writeIndex = - 1, readIndex = - 4, pool = replicate 16 (0 :: u64),
                         overflowCount = 0\<rparr>,
            attached = True, lastReadBuf = Some 4 \<rparr>"
  have "(of_nat 18446744073709551612 :: u64) = - 4"
    using unat_minus_4 by (simp add: word_unat_eq_iff)
  with run_detached_writes [of 18446744073709551612]
  have "run False 4 4 (replicate 18446744073709551612 NextWritableBuffer)
      (fresh 4 4 :: u64 session) = Some ?a"
    by simp
  moreover have "run False 4 4
      [AttachReader, NextWritableBuffer, NextWritableBuffer, NextWritableBuffer,
       NextReadableBuffer None, NextReadableBuffer (Some 0)] ?a = Some ?b"
    using unat_max_u64 unat_minus_4
    by (simp add: attachReader_quiescent_cases [OF isPoolSizeValid_4] nextWritableBuffer_def
        nextReadableBuffer_def bufferAt_def poolSizeMask_def readIndexMax_def)
  ultimately show ?thesis
    by (simp only: run_append option.case)
qed

text \<open>
  The producer's claim as the specification states it has \<open>W\<close> advanced in every
  pool state with \<open>W < R + N\<close>.  The legal call sequence with \<open>2 ^ 64 - 4\<close> writes before the
  reader attaches leads to \<open>W = 2 ^ 64 - 1\<close> and \<open>R = 2 ^ 64 - 4\<close>, where
  \<open>W < R + N\<close> holds of the numbers and three slots are unread; the 64-bit sum is
  \<open>0\<close>, the test fails and \<open>W\<close> stays.
\<close>

theorem nextWritableBuffer_not_advanced_where_sum_wraps:
  fixes s :: "u64 WaitFreeBufferPool"
  defines "s \<equiv> \<lparr>writeIndex = - 1, readIndex = - 4, pool = replicate 16 0, overflowCount = 0\<rparr>"
  shows "run False 4 4
     (replicate 18446744073709551612 NextWritableBuffer @
      [AttachReader, NextWritableBuffer, NextWritableBuffer, NextWritableBuffer,
       NextReadableBuffer None, NextReadableBuffer (Some 0)])
     (fresh 4 4)
   = Some \<lparr> thePool = s, attached = True, lastReadBuf = Some 4 \<rparr> \<and>
   unat (writeIndex s) < unat (readIndex s) + unat (4 :: u32) \<and>
   \<not> writeIndex s < readIndex s + ucast (4 :: u32) \<and>
   nextWritableBuffer 4 4 s = (12, s\<lparr>overflowCount := 1\<rparr>) \<and>
   writeIndex (snd (nextWritableBuffer 4 4 s)) = writeIndex s"
proof -
  have "nextWritableBuffer 4 4 s = (12, s\<lparr>overflowCount := 1\<rparr>)"
    by (simp add: s_def nextWritableBuffer_def bufferAt_def poolSizeMask_def)
  moreover have "unat (writeIndex s) < unat (readIndex s) + unat (4 :: u32)"
    using unat_max_u64 unat_minus_4 by (simp add: s_def)
  moreover have "\<not> writeIndex s < readIndex s + ucast (4 :: u32)"
    by (simp add: s_def)
  ultimately show ?thesis
    using run_reaches_read_index_near_wrap by (simp add: s_def)
qed

text \<open>
  The attach claim as the specification states it has the loop retry exactly while
  \<open>W > R + N\<close> and return a tuple in every pool state.  After \<open>2 ^ 64 - 1\<close> writes
  with no reader attached \<open>W\<close> is \<open>2 ^ 64 - 1\<close>; the proposal is \<open>R = 2 ^ 64 - 2\<close>
  and \<open>W > R + N\<close> does not hold of the numbers, but the 64-bit sum is \<open>2\<close>, the
  retry test holds again in every iteration and the call does not return.
\<close>

theorem attachReader_does_not_return_where_sum_wraps:
  fixes s :: "u64 WaitFreeBufferPool"
  defines "s \<equiv> \<lparr>writeIndex = - 1, readIndex = readIndexMax 4, pool = replicate 16 0,
                  overflowCount = 0\<rparr>"
  shows "run False 4 4 (replicate 18446744073709551615 NextWritableBuffer) (fresh 4 4)
   = Some \<lparr> thePool = s, attached = False, lastReadBuf = None \<rparr> \<and>
   proposedReadIndex (writeIndex s) = - 2 \<and>
   \<not> unat (writeIndex s) > unat (proposedReadIndex (writeIndex s)) + unat (4 :: u32) \<and>
   writeIndex s > proposedReadIndex (writeIndex s) + ucast (4 :: u32) \<and>
   attachReader 4 s = None \<and>
   step False 4 4 AttachReader \<lparr> thePool = s, attached = False, lastReadBuf = None \<rparr> = None"
proof -
  have m: "(of_nat 18446744073709551615 :: u64) = - 1"
    using unat_max_u64 by (simp add: word_unat_eq_iff)
  have r: "run False 4 4 (replicate 18446744073709551615 NextWritableBuffer)
      (fresh 4 4 :: u64 session)
    = Some \<lparr> thePool = s, attached = False, lastReadBuf = None \<rparr>"
    using run_detached_writes [of 18446744073709551615] m by (simp add: s_def)
  have p: "proposedReadIndex (writeIndex s) = - 2"
    by (simp add: s_def proposedReadIndex_def)
  have "(- 2 :: u64) = - 1 - 1" by simp
  moreover have "(1 :: u64) \<le> - 1" by simp
  ultimately have m2: "unat (- 2 :: u64) = 18446744073709551614"
    using unat_sub [of "1 :: u64" "- 1"] unat_max_u64 by simp
  have n: "\<not> unat (writeIndex s) > unat (proposedReadIndex (writeIndex s)) + unat (4 :: u32)"
    unfolding p using m2 unat_max_u64 by (simp add: s_def)
  have w: "writeIndex s > proposedReadIndex (writeIndex s) + ucast (4 :: u32)"
    unfolding p using unat_max_u64 by (simp add: s_def word_less_nat_alt)
  have a: "attachReader 4 s = None"
    using unat_max_u64
    by (simp add: attachReader_quiescent_cases [OF isPoolSizeValid_4] s_def)
  from r p n w a show ?thesis by simp
qed

section \<open>The end-to-end scenarios with four slots of four records\<close>

lemma replicate_16: "replicate 16 x = [x, x, x, x, x, x, x, x, x, x, x, x, x, x, x, x]"
  by (simp add: eval_nat_numeral)

lemmas scenario_simps = replicate_16
  initial_def readIndexMax_def attachReader_quiescent_cases [OF isPoolSizeValid_4]
  nextWritableBuffer_def nextReadableBuffer_def bufferAt_def poolSizeMask_def
  produce_def fillBuffer_def readBuffer_def

text \<open>
  C9, as the code has it.  After the attach at \<open>W = 0\<close> and one
  \<open>nextWritableBuffer\<close> whose buffer is filled with \<open>[1, 2, 3, 4]\<close>, the write index
  is \<open>1\<close> and the read index \<open>0\<close>: \<open>nextReadableBuffer(nullptr)\<close> returns \<open>nullptr\<close>.  The
  buffer becomes readable with the next \<open>nextWritableBuffer\<close>; then
  \<open>nextReadableBuffer(nullptr)\<close> returns it, it holds \<open>[1, 2, 3, 4]\<close>, and the call
  after that returns \<open>nullptr\<close>.
\<close>

theorem single_write_readable_after_next_write:
  fixes s1 s2 s3 :: "u64 WaitFreeBufferPool"
  defines "s1 \<equiv> \<lparr>writeIndex = 0, readIndex = 0, pool = replicate 16 0, overflowCount = 0\<rparr>"
    and "s2 \<equiv> \<lparr>writeIndex = 1, readIndex = 0,
                pool = [0, 0, 0, 0, 1, 2, 3, 4, 0, 0, 0, 0, 0, 0, 0, 0], overflowCount = 0\<rparr>"
    and "s3 \<equiv> \<lparr>writeIndex = 2, readIndex = 0,
                pool = [0, 0, 0, 0, 1, 2, 3, 4, 0, 0, 0, 0, 0, 0, 0, 0], overflowCount = 0\<rparr>"
  shows "attachReader 4 (initial 4 4) = Some ((0, 0), s1) \<and>
    produce 4 4 [1, 2, 3, 4] s1 = Inr (4, s2) \<and>
    nextReadableBuffer ndebug 4 4 s2 None = Inr (None, s2) \<and>
    nextWritableBuffer 4 4 s2 = (8, s3) \<and>
    nextReadableBuffer ndebug 4 4 s3 None = Inr (Some 4, s3) \<and>
    readBuffer 4 4 s3 = Inr [1, 2, 3, 4] \<and>
    nextReadableBuffer ndebug 4 4 s3 (Some 4) = Inr (None, s3\<lparr>readIndex := 1\<rparr>)"
  by (simp add: s1_def s2_def s3_def scenario_simps)

text \<open>
  The claim as the specification states it has the first
  \<open>nextReadableBuffer(nullptr)\<close> return the buffer with \<open>[1, 2, 3, 4]\<close>.  It returns
  \<open>nullptr\<close>.
\<close>

theorem single_write_not_readable_at_once:
  fixes s1 s2 :: "u64 WaitFreeBufferPool"
  defines "s1 \<equiv> \<lparr>writeIndex = 0, readIndex = 0, pool = replicate 16 0, overflowCount = 0\<rparr>"
    and "s2 \<equiv> \<lparr>writeIndex = 1, readIndex = 0,
                pool = [0, 0, 0, 0, 1, 2, 3, 4, 0, 0, 0, 0, 0, 0, 0, 0], overflowCount = 0\<rparr>"
  shows "attachReader 4 (initial 4 4) = Some ((0, 0), s1) \<and>
    produce 4 4 [1, 2, 3, 4] s1 = Inr (4, s2) \<and>
    nextReadableBuffer False 4 4 s2 None = Inr (None, s2) \<and>
    nextReadableBuffer True 4 4 s2 None = Inr (None, s2)"
  by (simp add: s1_def s2_def scenario_simps)

lemmas fill_simps =
  initial_def readIndexMax_def attachReader_quiescent_cases [OF isPoolSizeValid_4]
  nextWritableBuffer_def nextReadableBuffer_def bufferAt_def poolSizeMask_def
  produce_def fillBuffer_def readBuffer_def

text \<open>
  C8, as the code has it.  After the attach at \<open>W = 0\<close> the first four
  \<open>nextWritableBuffer\<close> calls advance \<open>W\<close> to \<open>4\<close> and hand out the slots \<open>1\<close>, \<open>2\<close>,
  \<open>3\<close> and \<open>0\<close>; the fifth leaves \<open>W\<close>, counts an overflow and hands out slot \<open>0\<close>
  again, so that \<open>E\<close> replaces \<open>D\<close>.  The consumer then drains \<open>A\<close>, \<open>B\<close>, \<open>C\<close> and is
  handed \<open>nullptr\<close>: slot \<open>0\<close> is the slot of the current \<open>W\<close> and stays with the
  producer.
\<close>

theorem fill_without_drain:
  fixes A B C D E :: "('a::zero) list" and s1 s5 s6 :: "'a WaitFreeBufferPool"
  assumes "length A = 4" "length B = 4" "length C = 4" "length D = 4" "length E = 4"
  defines "s1 \<equiv> \<lparr>writeIndex = 0, readIndex = 0, pool = replicate 16 0, overflowCount = 0\<rparr>"
    and "s5 \<equiv> \<lparr>writeIndex = 4, readIndex = 0, pool = D @ A @ B @ C, overflowCount = 0\<rparr>"
    and "s6 \<equiv> \<lparr>writeIndex = 4, readIndex = 0, pool = E @ A @ B @ C, overflowCount = 1\<rparr>"
  shows "attachReader 4 (initial 4 4) = Some ((0, 0), s1) \<and>
    produceAll 4 4 [A, B, C, D] s1 = Inr ([4, 8, 12, 0], s5) \<and>
    produce 4 4 E s5 = Inr (0, s6) \<and>
    produceAll 4 4 [A, B, C, D, E] s1 = Inr ([4, 8, 12, 0, 0], s6) \<and>
    readBuffer 4 0 s5 = Inr D \<and> readBuffer 4 0 s6 = Inr E \<and>
    drain ndebug 4 4 s6 None = Inr ([A, B, C], s6\<lparr>readIndex := 3\<rparr>)"
proof -
  have a: "attachReader 4 (initial 4 4) = Some ((0, 0), s1)"
    by (simp add: s1_def fill_simps)
  have p4: "produceAll 4 4 [A, B, C, D] s1 = Inr ([4, 8, 12, 0], s5)"
    using assms(1-4) by (simp add: s1_def s5_def fill_simps)
  have p5: "produce 4 4 E s5 = Inr (0, s6)"
    using assms(1-5) by (simp add: s5_def s6_def fill_simps)
  have pa: "produceAll 4 4 [A, B, C, D, E] s1 = Inr ([4, 8, 12, 0, 0], s6)"
    using assms(1-5) by (simp add: s1_def s6_def fill_simps)
  have r: "readBuffer 4 0 s5 = Inr D" "readBuffer 4 0 s6 = Inr E"
    using assms(1-5) by (simp_all add: s5_def s6_def fill_simps)
  have d: "drain ndebug 4 4 s6 None = Inr ([A, B, C], s6\<lparr>readIndex := 3\<rparr>)"
    using assms(1-5) by (simp add: s6_def fill_simps)
  from a p4 p5 pa r d show ?thesis by simp
qed

theorem fill_without_drain_witness:
  "length [1, 1, 1, 1 :: u64] = 4 \<and>
   produceAll 4 4
     [[1, 1, 1, 1], [2, 2, 2, 2], [3, 3, 3, 3], [4, 4, 4, 4], [5, 5, 5, 5 :: u64]]
     \<lparr>writeIndex = 0, readIndex = 0, pool = replicate 16 0, overflowCount = 0\<rparr>
   = Inr ([4, 8, 12, 0, 0],
       \<lparr>writeIndex = 4, readIndex = 0,
        pool = [5, 5, 5, 5] @ [1, 1, 1, 1] @ [2, 2, 2, 2] @ [3, 3, 3, 3], overflowCount = 1\<rparr>) \<and>
   drain True 4 4
     \<lparr>writeIndex = 4, readIndex = 0,
      pool = [5, 5, 5, 5] @ [1, 1, 1, 1] @ [2, 2, 2, 2] @ [3, 3, 3, 3 :: u64], overflowCount = 1\<rparr>
     None
   = Inr ([[1, 1, 1, 1], [2, 2, 2, 2], [3, 3, 3, 3]],
       \<lparr>writeIndex = 4, readIndex = 3,
        pool = [5, 5, 5, 5] @ [1, 1, 1, 1] @ [2, 2, 2, 2] @ [3, 3, 3, 3], overflowCount = 1\<rparr>)"
proof -
  have l: "length [1, 1, 1, 1 :: u64] = 4" "length [2, 2, 2, 2 :: u64] = 4"
    "length [3, 3, 3, 3 :: u64] = 4" "length [4, 4, 4, 4 :: u64] = 4"
    "length [5, 5, 5, 5 :: u64] = 4"
    by simp_all
  from fill_without_drain [OF l, of True] show ?thesis by simp
qed

text \<open>
  The claim as the specification states it has the consumer see \<open>A\<close>, \<open>B\<close>, \<open>C\<close>, \<open>E\<close>.
  With \<open>A = [1, 1, 1, 1]\<close> to \<open>E = [5, 5, 5, 5]\<close> the consumer sees \<open>A\<close>, \<open>B\<close>, \<open>C\<close> and
  then \<open>nullptr\<close>.
\<close>

theorem fill_without_drain_does_not_deliver_last:
  fixes s1 s6 :: "u64 WaitFreeBufferPool"
  defines "s1 \<equiv> \<lparr>writeIndex = 0, readIndex = 0, pool = replicate 16 0, overflowCount = 0\<rparr>"
    and "s6 \<equiv> \<lparr>writeIndex = 4, readIndex = 0,
                pool = [5, 5, 5, 5, 1, 1, 1, 1, 2, 2, 2, 2, 3, 3, 3, 3], overflowCount = 1\<rparr>"
  shows "attachReader 4 (initial 4 4) = Some ((0, 0), s1) \<and>
    produceAll 4 4
      [[1, 1, 1, 1], [2, 2, 2, 2], [3, 3, 3, 3], [4, 4, 4, 4], [5, 5, 5, 5]] s1
      = Inr ([4, 8, 12, 0, 0], s6) \<and>
    drain False 4 4 s6 None
      = Inr ([[1, 1, 1, 1], [2, 2, 2, 2], [3, 3, 3, 3]], s6\<lparr>readIndex := 3\<rparr>) \<and>
    [[1, 1, 1, 1], [2, 2, 2, 2], [3, 3, 3, 3 :: u64]]
      \<noteq> [[1, 1, 1, 1], [2, 2, 2, 2], [3, 3, 3, 3], [5, 5, 5, 5]]"
  by (simp add: s1_def s6_def scenario_simps)

end
